theory Spec2Isabelle
  imports Main "HOL-Library.Word"
begin

section \<open>External primitives\<close>

text \<open>
  The ring-signature and stealth-address code is written against a curve type
  \<open>CurvePoint\<close> and the SHA-256 function of the standard library. Neither is part of the two
  source files, so they enter the model as a record of operations over an abstract point
  type \<open>'p\<close>; equality on \<open>'p\<close> stands for the comparison \<open>==\<close> of two \<open>CurvePoint\<close>
  values. Scalars are \<open>*big.Int\<close>, modelled as unbounded integers; byte slices are lists of
  8-bit words.
\<close>

type_synonym byte = "8 word"

record 'p prims =
  Order :: int
  ScalarBaseMult :: "int \<Rightarrow> 'p"
  ScalarMult :: "'p \<Rightarrow> int \<Rightarrow> 'p"
  Add :: "'p \<Rightarrow> 'p \<Rightarrow> 'p"
  Marshal :: "'p \<Rightarrow> byte list"
  IsOnCurve :: "'p \<Rightarrow> bool"
  NewCurvePointFromHash :: "byte list \<Rightarrow> 'p"
  Sum256 :: "byte list \<Rightarrow> byte list"

text \<open>
  Modelled from the spec: \<open>ParameterPointAdd\<close> and \<open>HashPointAdd\<close>, two methods of
  \<open>CurvePoint\<close> that are called by \<open>Signature\<close> and defined outside the two source files.
  The specification gives them as \<open>[t]G + [c]P\<close> and \<open>[t]P + [c]Y\<close>.
\<close>

definition ParameterPointAdd :: "'p prims \<Rightarrow> 'p \<Rightarrow> int \<Rightarrow> int \<Rightarrow> 'p" where
  "ParameterPointAdd c P t cj = Add c (ScalarBaseMult c t) (ScalarMult c P cj)"

definition HashPointAdd :: "'p prims \<Rightarrow> 'p \<Rightarrow> 'p \<Rightarrow> int \<Rightarrow> int \<Rightarrow> 'p" where
  "HashPointAdd c P Y t cj = Add c (ScalarMult c P t) (ScalarMult c Y cj)"

text \<open>
  The algebraic contract of the curve primitive: a positive group order \<open>N\<close>, scalar
  multiplication that is a homomorphism in the scalar and only depends on the scalar
  modulo \<open>N\<close>, and base-point multiplication as multiplication of one fixed point.
\<close>

definition curve_ok :: "'p prims \<Rightarrow> bool" where
  "curve_ok c \<longleftrightarrow>
     0 < Order c \<and>
     (\<exists>G. \<forall>k. ScalarBaseMult c k = ScalarMult c G k) \<and>
     (\<forall>P a b. Add c (ScalarMult c P a) (ScalarMult c P b) = ScalarMult c P (a + b)) \<and>
     (\<forall>P a b. ScalarMult c (ScalarMult c P a) b = ScalarMult c P (a * b)) \<and>
     (\<forall>P k. ScalarMult c P (k mod Order c) = ScalarMult c P k)"

text \<open>\<open>big.Int.SetBytes\<close>: a byte slice read as a big-endian unsigned integer.\<close>

definition SetBytes :: "byte list \<Rightarrow> int" where
  "SetBytes bs = foldl (\<lambda>acc b. acc * 256 + uint b) 0 bs"

text \<open>\<open>big.Int.Bytes\<close>: the absolute value in big-endian bytes without leading zeros.\<close>

fun nat_bytes :: "nat \<Rightarrow> byte list" where
  "nat_bytes n = (if n = 0 then [] else nat_bytes (n div 256) @ [of_nat (n mod 256)])"

declare nat_bytes.simps [simp del]

definition Bytes :: "int \<Rightarrow> byte list" where
  "Bytes n = nat_bytes (nat \<bar>n\<bar>)"

section \<open>Rings (ring.go)\<close>

record 'p Ring =
  PubKeys :: "'p list"
  PrivKeys :: "int list"

record 'p RingSignature =
  Tau :: 'p
  Ctlist :: "int list"

datatype error =
    InvalidSecretKey int
  | NullPublicKey
  | CouldNotDeriveStealthPublicKey nat
  | PanicNilDereference
  | PanicIndexOutOfRange

subsection \<open>PublicKeysHashed\<close>

text \<open>
  The loop \<open>for i := 0; i < len(r.PubKeys); i++\<close> with the accumulator \<open>out\<close>, a 32-byte
  array that starts zeroed.
\<close>

function PublicKeysHashed_loop :: "'p prims \<Rightarrow> 'p Ring \<Rightarrow> nat \<Rightarrow> byte list \<Rightarrow> byte list" where
  "PublicKeysHashed_loop c r i out =
     (if i < length (PubKeys r)
      then PublicKeysHashed_loop c r (Suc i) (Sum256 c (out @ Marshal c (PubKeys r ! i)))
      else out)"
  by pat_completeness auto
termination
  by (relation "measure (\<lambda>(c, r, i, out). length (PubKeys r) - i)") auto

declare PublicKeysHashed_loop.simps [simp del]

definition PublicKeysHashed :: "'p prims \<Rightarrow> 'p Ring \<Rightarrow> byte list" where
  "PublicKeysHashed c r = PublicKeysHashed_loop c r 0 (replicate 32 0)"

text \<open>
  The recurrence of the specification, section 4.7: start with 32 zero bytes and replace
  \<open>h\<close> by \<open>SHA-256(h || marshal(pk))\<close> for each public key in stored order.
\<close>

definition public_keys_hashed_spec :: "'p prims \<Rightarrow> 'p list \<Rightarrow> byte list" where
  "public_keys_hashed_spec c pks = foldl (\<lambda>h pk. Sum256 c (h @ Marshal c pk)) (replicate 32 0) pks"

subsection \<open>PubKeyIndex\<close>

text \<open>
  \<open>for i, pub := range r.PubKeys\<close>, returning at the first \<open>pub == pk\<close> and \<open>-1\<close> after the
  loop.
\<close>

function PubKeyIndex_loop :: "'p Ring \<Rightarrow> 'p \<Rightarrow> nat \<Rightarrow> int" where
  "PubKeyIndex_loop r pk i =
     (if i < length (PubKeys r)
      then (if PubKeys r ! i = pk then int i else PubKeyIndex_loop r pk (Suc i))
      else -1)"
  by pat_completeness auto
termination
  by (relation "measure (\<lambda>(r, pk, i). length (PubKeys r) - i)") auto

declare PubKeyIndex_loop.simps [simp del]

definition PubKeyIndex :: "'p Ring \<Rightarrow> 'p \<Rightarrow> int" where
  "PubKeyIndex r pk = PubKeyIndex_loop r pk 0"

subsection \<open>Signature\<close>

text \<open>
  \<open>var messageHash [32]byte; copy(messageHash[:], message)\<close>: the first 32 bytes of the
  message, zero-padded on the right when the message is shorter.
\<close>

definition messageHash :: "byte list \<Rightarrow> byte list" where
  "messageHash message = take 32 message @ replicate (32 - length message) 0"

text \<open>
  The variables that the two loops of ring.go update. The entries of \<open>ctlist\<close> are
  \<open>*big.Int\<close>; the list holds the values behind the pointers. \<open>ri\<close> is a pointer that is
  \<open>nil\<close> until the signer's iteration assigns it. \<open>draws\<close> counts the calls of
  \<open>RandomN\<close> made so far: the random source is a tape \<open>rnd\<close>, and the \<open>k\<close>-th call
  returns \<open>rnd k\<close>.
\<close>

record loop_state =
  ctlist :: "int list"
  csum :: int
  hashAcc :: "byte list"

record sign_state = loop_state +
  ri :: "int option"
  draws :: nat

text \<open>
  One iteration of the signing loop. The source has two consecutive blocks guarded by
  \<open>j != signer\<close> and \<open>j == signer\<close>; exactly one of them runs, and both assign \<open>a\<close> and
  \<open>b\<close> before the hash update.
\<close>

definition sign_step ::
  "'p prims \<Rightarrow> 'p Ring \<Rightarrow> 'p \<Rightarrow> 'p \<Rightarrow> int \<Rightarrow> (nat \<Rightarrow> int) \<Rightarrow> nat \<Rightarrow> sign_state \<Rightarrow> sign_state" where
  "sign_step c r hashp hashSP signer rnd j st =
     (if int j \<noteq> signer then
        (let cj = rnd (draws st);
             tj = rnd (draws st + 1);
             a = ParameterPointAdd c (PubKeys r ! j) tj cj;
             b = HashPointAdd c hashp hashSP tj cj
         in st\<lparr> ctlist := ctlist st @ [cj, tj],
                csum := csum st + cj,
                hashAcc := Sum256 c (hashAcc st @ Marshal c a @ Marshal c b),
                draws := draws st + 2 \<rparr>)
      else
        (let rs = rnd (draws st);
             a = ScalarBaseMult c rs;
             b = ScalarMult c hashp rs
         in st\<lparr> ctlist := ctlist st @ [0, 0],
                hashAcc := Sum256 c (hashAcc st @ Marshal c a @ Marshal c b),
                ri := Some rs,
                draws := draws st + 1 \<rparr>))"

function sign_loop ::
  "'p prims \<Rightarrow> 'p Ring \<Rightarrow> 'p \<Rightarrow> 'p \<Rightarrow> int \<Rightarrow> (nat \<Rightarrow> int) \<Rightarrow> nat \<Rightarrow> nat \<Rightarrow> sign_state \<Rightarrow> sign_state" where
  "sign_loop c r hashp hashSP signer rnd n j st =
     (if j < n
      then sign_loop c r hashp hashSP signer rnd n (Suc j) (sign_step c r hashp hashSP signer rnd j st)
      else st)"
  by pat_completeness auto
termination
  by (relation "measure (\<lambda>(c, r, hashp, hashSP, signer, rnd, n, j, st). n - j)") auto

declare sign_loop.simps [simp del]

definition sign_init :: "byte list \<Rightarrow> sign_state" where
  "sign_init acc0 = \<lparr> ctlist = [], csum = 0, hashAcc = acc0, ri = None, draws = 0 \<rparr>"

text \<open>
  \<open>Signature\<close> returns a pair: the value that the caller's secret key object \<open>pk\<close> holds
  after the call (\<open>pk.Mod(pk, N)\<close> writes through the pointer), and the result. The
  returned error is always \<open>nil\<close> in the source; the failures are the runtime panics of
  \<open>Sub(ri, cx)\<close> on a \<open>nil\<close> \<open>ri\<close> and of the two indexed assignments. \<open>Mod\<close> on
  \<open>big.Int\<close> is the Euclidean modulus, which is \<open>mod\<close> for the positive modulus \<open>N\<close>.
  \<open>Marshal\<close> returns 64 bytes, so the slice \<open>[:32]\<close> is \<open>take 32\<close>.
\<close>

definition Signature ::
  "'p prims \<Rightarrow> 'p Ring \<Rightarrow> int \<Rightarrow> byte list \<Rightarrow> int \<Rightarrow> (nat \<Rightarrow> int) \<Rightarrow> int \<times> (error + 'p RingSignature)" where
  "Signature c r pk message signer rnd =
     (let N = Order c;
          hashp = NewCurvePointFromHash c (messageHash message);
          pk' = pk mod N;
          hashSP = ScalarMult c hashp pk';
          acc0 = Sum256 c (take 32 (Marshal c hashp) @ Marshal c hashSP);
          n = length (PubKeys r);
          st = sign_loop c r hashp hashSP signer rnd n 0 (sign_init acc0)
      in (pk',
          case ri st of
            None \<Rightarrow> Inl PanicNilDereference
          | Some rs \<Rightarrow>
              (let hashb = SetBytes (hashAcc st) mod N;
                   cs = csum st mod N;
                   ch = (hashb - cs) mod N;
                   cx = (ch * pk') mod N;
                   ti = (rs - cx) mod N
               in if 0 \<le> 2 * signer \<and> nat (2 * signer) < length (ctlist st) then
                    if nat (2 * signer + 1) < length (ctlist st) then
                      Inr \<lparr> Tau = hashSP,
                            Ctlist = (ctlist st)[nat (2 * signer) := ch, nat (2 * signer + 1) := ti] \<rparr>
                    else Inl PanicIndexOutOfRange
                  else Inl PanicIndexOutOfRange)))"

subsection \<open>VerifySignature\<close>

text \<open>
  One iteration of the verification loop. Reading \<open>ctlist[2*j]\<close> or \<open>ctlist[2*j+1]\<close> past
  the end of the slice is a runtime panic. \<open>cj.Mod(cj, N)\<close> and \<open>tj.Mod(tj, N)\<close> write the
  residues back into the signature's entries. Two entries that share one \<open>big.Int\<close> hold
  the same value and reduce to the same residue, so the values read do not depend on
  sharing.
\<close>

definition verify_step ::
  "'p prims \<Rightarrow> 'p Ring \<Rightarrow> 'p \<Rightarrow> 'p \<Rightarrow> nat \<Rightarrow> loop_state \<Rightarrow> error + loop_state" where
  "verify_step c r hashp tau j st =
     (if 2 * j < length (ctlist st) then
        if 2 * j + 1 < length (ctlist st) then
          (let N = Order c;
               cj = ctlist st ! (2 * j) mod N;
               tj = ctlist st ! (2 * j + 1) mod N;
               yc = ScalarMult c (PubKeys r ! j) cj;
               gt = Add c (ScalarBaseMult c tj) yc;
               tauc = ScalarMult c tau cj;
               H = Add c (ScalarMult c hashp tj) tauc
           in Inr \<lparr> ctlist = (ctlist st)[2 * j := cj, 2 * j + 1 := tj],
                    csum = (csum st + cj) mod N,
                    hashAcc = Sum256 c (hashAcc st @ Marshal c gt @ Marshal c H) \<rparr>)
        else Inl PanicIndexOutOfRange
      else Inl PanicIndexOutOfRange)"

function verify_loop ::
  "'p prims \<Rightarrow> 'p Ring \<Rightarrow> 'p \<Rightarrow> 'p \<Rightarrow> nat \<Rightarrow> nat \<Rightarrow> loop_state \<Rightarrow> error + loop_state" where
  "verify_loop c r hashp tau n j st =
     (if j < n
      then (case verify_step c r hashp tau j st of
              Inl e \<Rightarrow> Inl e
            | Inr st' \<Rightarrow> verify_loop c r hashp tau n (Suc j) st')
      else Inr st)"
  by pat_completeness auto
termination
  by (relation "measure (\<lambda>(c, r, hashp, tau, n, j, st). n - j)") auto

declare verify_loop.simps [simp del]

text \<open>
  The body of \<open>VerifySignature\<close> up to the final comparison: the state after the loop, or
  the panic that stopped it.
\<close>

definition VerifySignature_run ::
  "'p prims \<Rightarrow> 'p Ring \<Rightarrow> byte list \<Rightarrow> 'p RingSignature \<Rightarrow> error + loop_state" where
  "VerifySignature_run c r message sigma =
     (let tau = Tau sigma;
          n = length (PubKeys r);
          hashp = NewCurvePointFromHash c (messageHash message);
          acc0 = Sum256 c (take 32 (Marshal c hashp) @ Marshal c tau)
      in verify_loop c r hashp tau n 0 \<lparr> ctlist = Ctlist sigma, csum = 0, hashAcc = acc0 \<rparr>)"

definition VerifySignature ::
  "'p prims \<Rightarrow> 'p Ring \<Rightarrow> byte list \<Rightarrow> 'p RingSignature \<Rightarrow> error + bool" where
  "VerifySignature c r message sigma =
     (case VerifySignature_run c r message sigma of
        Inl e \<Rightarrow> Inl e
      | Inr st \<Rightarrow>
          (let N = Order c;
               hashout = SetBytes (hashAcc st) mod N
           in Inr (csum st mod N = hashout)))"

subsection \<open>The verification rule of the specification\<close>

text \<open>
  Section 4.9 of the specification, on the values of the scalars. Step 2 runs over the
  public keys in order and takes \<open>c_j\<close> and \<open>t_j\<close> from \<open>ct[2j]\<close> and \<open>ct[2j+1]\<close>: reduce both
  modulo \<open>N\<close>, form \<open>a_j = [t_j]G + [c_j]pk_j\<close> and \<open>b_j = [t_j]Hp + [c_j]tau\<close>, extend the hash
  chain by \<open>M(a_j) || M(b_j)\<close> and add \<open>c_j\<close> to \<open>c_sum\<close> modulo \<open>N\<close>. Entries of \<open>ct\<close> beyond the
  last public key play no part.
\<close>

fun spec_verify_chain ::
  "'p prims \<Rightarrow> 'p \<Rightarrow> 'p \<Rightarrow> 'p list \<Rightarrow> int list \<Rightarrow> int \<times> byte list \<Rightarrow> int \<times> byte list" where
  "spec_verify_chain c Hp tau (pk # pks) (cj # tj # ct) (c_sum, hash_acc) =
     (let N = Order c;
          c_j = cj mod N;
          t_j = tj mod N;
          a_j = Add c (ScalarBaseMult c t_j) (ScalarMult c pk c_j);
          b_j = Add c (ScalarMult c Hp t_j) (ScalarMult c tau c_j)
      in spec_verify_chain c Hp tau pks ct
           ((c_sum + c_j) mod N, Sum256 c (hash_acc @ Marshal c a_j @ Marshal c b_j)))"
| "spec_verify_chain c Hp tau pks ct acc = acc"

text \<open>
  Steps 1, 3 and 4: start the chain at \<open>H(first 32 bytes of M(Hp) || M(tau))\<close> with
  \<open>c_sum = 0\<close>, read the final hash as an integer modulo \<open>N\<close>, and accept exactly when it
  equals \<open>c_sum\<close>.
\<close>

definition spec_verify :: "'p prims \<Rightarrow> 'p list \<Rightarrow> byte list \<Rightarrow> 'p \<Rightarrow> int list \<Rightarrow> bool" where
  "spec_verify c pks m tau ct =
     (let Hp = NewCurvePointFromHash c m;
          fin = spec_verify_chain c Hp tau pks ct
                  (0, Sum256 c (take 32 (Marshal c Hp) @ Marshal c tau));
          h = SetBytes (snd fin) mod Order c
      in fst fin = h)"

subsection \<open>Scalars as objects in a store\<close>

text \<open>
  A \<open>*big.Int\<close> is the address of an object; a store gives the value of each object. The
  public keys of the ring are values in a slice; its private keys and the entries of a
  signature's \<open>ctlist\<close> are addresses.
\<close>

type_synonym store = "nat \<Rightarrow> int"

record ptr_state =
  mem :: store
  psum :: int
  pacc :: "byte list"

text \<open>
  One iteration of the loop of \<open>VerifySignature\<close> with \<open>ctlist\<close> a list of addresses:
  \<open>cj.Mod(cj, N)\<close> and \<open>tj.Mod(tj, N)\<close> update the two objects in this order, and the
  scalar multiplications read them afterwards. \<open>csum\<close> is an object created by the call
  and is kept outside the store.
\<close>

definition verify_step_ptr ::
  "'p prims \<Rightarrow> 'p Ring \<Rightarrow> 'p \<Rightarrow> 'p \<Rightarrow> nat list \<Rightarrow> nat \<Rightarrow> ptr_state \<Rightarrow> error + ptr_state" where
  "verify_step_ptr c r hashp tau ct j st =
     (if 2 * j < length ct then
        if 2 * j + 1 < length ct then
          (let N = Order c;
               cj = ct ! (2 * j);
               tj = ct ! (2 * j + 1);
               m1 = (mem st)(cj := mem st cj mod N);
               m2 = m1(tj := m1 tj mod N);
               yc = ScalarMult c (PubKeys r ! j) (m2 cj);
               gt = Add c (ScalarBaseMult c (m2 tj)) yc;
               tauc = ScalarMult c tau (m2 cj);
               H = Add c (ScalarMult c hashp (m2 tj)) tauc
           in Inr \<lparr> mem = m2,
                    psum = (psum st + m2 cj) mod N,
                    pacc = Sum256 c (pacc st @ Marshal c gt @ Marshal c H) \<rparr>)
        else Inl PanicIndexOutOfRange
      else Inl PanicIndexOutOfRange)"

function verify_loop_ptr ::
  "'p prims \<Rightarrow> 'p Ring \<Rightarrow> 'p \<Rightarrow> 'p \<Rightarrow> nat list \<Rightarrow> nat \<Rightarrow> nat \<Rightarrow> ptr_state \<Rightarrow> error + ptr_state" where
  "verify_loop_ptr c r hashp tau ct n j st =
     (if j < n
      then (case verify_step_ptr c r hashp tau ct j st of
              Inl e \<Rightarrow> Inl e
            | Inr st' \<Rightarrow> verify_loop_ptr c r hashp tau ct n (Suc j) st')
      else Inr st)"
  by pat_completeness auto
termination
  by (relation "measure (\<lambda>(c, r, hashp, tau, ct, n, j, st). n - j)") auto

declare verify_loop_ptr.simps [simp del]

text \<open>
  \<open>VerifySignature\<close> on a store: the signature is \<open>tau\<close> and the addresses \<open>ct\<close>; the result
  is the store after the call and the returned boolean.
\<close>

definition VerifySignature_ptr ::
  "'p prims \<Rightarrow> 'p Ring \<Rightarrow> byte list \<Rightarrow> 'p \<Rightarrow> nat list \<Rightarrow> store \<Rightarrow> error + (store \<times> bool)" where
  "VerifySignature_ptr c r message tau ct s =
     (let n = length (PubKeys r);
          N = Order c;
          hashp = NewCurvePointFromHash c (messageHash message);
          acc0 = Sum256 c (take 32 (Marshal c hashp) @ Marshal c tau)
      in case verify_loop_ptr c r hashp tau ct n 0 \<lparr> mem = s, psum = 0, pacc = acc0 \<rparr> of
           Inl e \<Rightarrow> Inl e
         | Inr st \<Rightarrow>
             (let hashout = SetBytes (pacc st) mod N
              in Inr (mem st, psum st mod N = hashout)))"

text \<open>
  \<open>Signature\<close> on a store: \<open>pk\<close> is the address of the caller's secret key. The statement
  \<open>pk.Mod(pk, N)\<close> is the only one that writes to a scalar that exists before the call;
  every other scalar that the function writes (\<open>csum\<close>, \<open>hashb\<close>, \<open>c\<close>, \<open>cx\<close>, \<open>ti\<close>) is
  created inside the call, as are the entries of the returned \<open>ctlist\<close>.
\<close>

definition Signature_ptr ::
  "'p prims \<Rightarrow> 'p Ring \<Rightarrow> store \<Rightarrow> nat \<Rightarrow> byte list \<Rightarrow> int \<Rightarrow> (nat \<Rightarrow> int) \<Rightarrow>
   store \<times> (error + 'p RingSignature)" where
  "Signature_ptr c r s pk message signer rnd =
     (s(pk := fst (Signature c r (s pk) message signer rnd)),
      snd (Signature c r (s pk) message signer rnd))"

section \<open>Stealth addresses (stealth.go)\<close>

record 'p StealthAddress =
  Public :: 'p
  Nonce :: int

text \<open>
  \<open>PrivateStealthAddress\<close> has the fields of \<open>StealthAddress\<close> and the secret key
  \<open>Private\<close>.
\<close>

record 'p PrivateStealthAddress = "'p StealthAddress" +
  Private :: int

record 'p StealthSession =
  MyPublic :: 'p
  TheirPublic :: 'p
  SharedSecret :: "byte list"
  TheirAddresses :: "'p StealthAddress list"
  MyAddresses :: "'p PrivateStealthAddress list"

definition isValidSecretKey :: "'p prims \<Rightarrow> int \<Rightarrow> bool" where
  "isValidSecretKey c secret =
     (if secret < 1 then False
      else if secret \<ge> Order c then False
      else True)"

definition derivePublicKey :: "'p prims \<Rightarrow> int \<Rightarrow> 'p" where
  "derivePublicKey c privateKey = ScalarBaseMult c privateKey"

text \<open>The result is a pointer; \<open>None\<close> is the \<open>nil\<close> that signals failure.\<close>

definition StealthPubDerive :: "'p prims \<Rightarrow> 'p \<Rightarrow> byte list \<Rightarrow> 'p option" where
  "StealthPubDerive c mpk secret =
     (if \<not> IsOnCurve c mpk then None
      else
        (let X = SetBytes (Sum256 c secret);
             Y = derivePublicKey c X;
             spk = Add c mpk Y
         in Some spk))"

definition StealthPrivDerive :: "'p prims \<Rightarrow> int \<Rightarrow> byte list \<Rightarrow> int option" where
  "StealthPrivDerive c msk secret =
     (if \<not> isValidSecretKey c msk then None
      else
        (let X = SetBytes (Sum256 c secret);
             Y = msk + X;
             ssk = Y mod Order c
         in if \<not> IsOnCurve c (derivePublicKey c ssk) then None else Some ssk))"

definition deriveSharedSecret :: "'p prims \<Rightarrow> int \<Rightarrow> 'p \<Rightarrow> byte list" where
  "deriveSharedSecret c myPriv theirPub = take 32 (Marshal c (ScalarMult c theirPub myPriv))"

text \<open>
  One iteration of the loop of \<open>NewStealthSession\<close>. \<open>nonceOffset\<close> and \<open>i\<close> are of type
  \<open>int\<close>, here 64 bits wide, so \<open>nonceOffset + i\<close> wraps around. When \<open>StealthPrivDerive\<close>
  returns \<open>nil\<close> the source passes the \<open>nil\<close> on to \<open>derivePublicKey\<close> without a test;
  reading a scalar through a \<open>nil\<close> \<open>*big.Int\<close> is a runtime panic.
\<close>

definition session_step ::
  "'p prims \<Rightarrow> int \<Rightarrow> 'p \<Rightarrow> byte list \<Rightarrow> 64 word \<Rightarrow> nat \<Rightarrow>
   'p StealthAddress list \<times> 'p PrivateStealthAddress list \<Rightarrow>
   error + ('p StealthAddress list \<times> 'p PrivateStealthAddress list)" where
  "session_step c mySecret theirPublic sharedSecret nonceOffset i st =
     (let nonce = sint (nonceOffset + of_nat i);
          secret = sharedSecret @ Bytes nonce
      in case StealthPubDerive c theirPublic secret of
           None \<Rightarrow> Inl (CouldNotDeriveStealthPublicKey i)
         | Some theirStealthPub \<Rightarrow>
             (let theirSA = \<lparr> Public = theirStealthPub, Nonce = nonce \<rparr>;
                  theirAddresses = fst st @ [theirSA]
              in case StealthPrivDerive c mySecret secret of
                   None \<Rightarrow> Inl PanicNilDereference
                 | Some myStealthPriv \<Rightarrow>
                     (let myStealthPub = derivePublicKey c myStealthPriv;
                          mySA = \<lparr> Public = myStealthPub, Nonce = nonce, Private = myStealthPriv \<rparr>
                      in Inr (theirAddresses, snd st @ [mySA]))))"

function session_loop ::
  "'p prims \<Rightarrow> int \<Rightarrow> 'p \<Rightarrow> byte list \<Rightarrow> 64 word \<Rightarrow> nat \<Rightarrow> nat \<Rightarrow>
   'p StealthAddress list \<times> 'p PrivateStealthAddress list \<Rightarrow>
   error + ('p StealthAddress list \<times> 'p PrivateStealthAddress list)" where
  "session_loop c mySecret theirPublic sharedSecret nonceOffset n i st =
     (if i < n
      then (case session_step c mySecret theirPublic sharedSecret nonceOffset i st of
              Inl e \<Rightarrow> Inl e
            | Inr st' \<Rightarrow> session_loop c mySecret theirPublic sharedSecret nonceOffset n (Suc i) st')
      else Inr st)"
  by pat_completeness auto
termination
  by (relation "measure (\<lambda>(c, mySecret, theirPublic, sharedSecret, nonceOffset, n, i, st). n - i)") auto

declare session_loop.simps [simp del]

text \<open>
  \<open>theirPublic\<close> is a pointer that may be \<open>nil\<close>. The loop \<open>for i := 0; i < addressCount; i++\<close>
  runs \<open>addressCount\<close> times when that signed number is positive and not at all otherwise.
\<close>

definition NewStealthSession ::
  "'p prims \<Rightarrow> int \<Rightarrow> 'p option \<Rightarrow> 64 word \<Rightarrow> 64 word \<Rightarrow> error + 'p StealthSession" where
  "NewStealthSession c mySecret theirPublic nonceOffset addressCount =
     (if \<not> isValidSecretKey c mySecret then Inl (InvalidSecretKey mySecret)
      else case theirPublic of
             None \<Rightarrow> Inl NullPublicKey
           | Some tp \<Rightarrow>
               (let sharedSecret = deriveSharedSecret c mySecret tp
                in case session_loop c mySecret tp sharedSecret nonceOffset
                          (nat (sint addressCount)) 0 ([], []) of
                     Inl e \<Rightarrow> Inl e
                   | Inr (theirAddresses, myAddresses) \<Rightarrow>
                       Inr \<lparr> MyPublic = derivePublicKey c mySecret,
                             TheirPublic = tp,
                             SharedSecret = sharedSecret,
                             TheirAddresses = theirAddresses,
                             MyAddresses = myAddresses \<rparr>))"

section \<open>Two small instances of the primitives\<close>

text \<open>
  The additive group of integers modulo 7 with generator 1 satisfies the contract; it is
  used to run the definitions on concrete inputs. A point is marshalled with its value in
  the last byte of the first 32-byte half, and the digest is the byte sum of the input,
  padded to 32 bytes. In \<open>toy\<close> every point passes the on-curve test; in \<open>toy_affine\<close> the
  neutral element fails it, as it does where the test is an equation on affine
  coordinates.
\<close>

definition toy_acc :: "byte \<Rightarrow> byte list" where
  "toy_acc b = replicate 31 0 @ [b]"

definition toy_sum :: "byte list \<Rightarrow> byte list" where
  "toy_sum bs = toy_acc (foldl (+) 0 bs)"

definition toy_marshal :: "int \<Rightarrow> byte list" where
  "toy_marshal p = replicate 31 0 @ [of_int p] @ replicate 32 0"

definition toy :: "int prims" where
  "toy = \<lparr> Order = 7,
           ScalarBaseMult = (\<lambda>k. k mod 7),
           ScalarMult = (\<lambda>P k. (P * k) mod 7),
           Add = (\<lambda>P Q. (P + Q) mod 7),
           Marshal = toy_marshal,
           IsOnCurve = (\<lambda>P. True),
           NewCurvePointFromHash = (\<lambda>h. 1 + SetBytes h mod 6),
           Sum256 = toy_sum \<rparr>"

definition toy_affine :: "int prims" where
  "toy_affine = toy\<lparr> IsOnCurve := (\<lambda>P. P mod 7 \<noteq> 0) \<rparr>"

definition toy_ring :: "int Ring" where
  "toy_ring = \<lparr> PubKeys = [3, 5, 2], PrivKeys = [] \<rparr>"

definition toy_rnd :: "nat \<Rightarrow> int" where
  "toy_rnd k = 3 * int k + 2"

text \<open>A 32-byte message and a ring of one key, \<open>[5]G\<close>.\<close>

definition toy_msg :: "byte list" where "toy_msg = replicate 31 0 @ [3]"
definition toy_ring1 :: "int Ring" where "toy_ring1 = \<lparr> PubKeys = [5], PrivKeys = [] \<rparr>"

section \<open>The small instances\<close>

lemma toy_curve_ok: "curve_ok toy"
proof -
  have a: "\<exists>G::int. \<forall>k. k mod 7 = G * k mod 7"
    by (rule exI [of _ 1]) simp
  have b: "\<forall>(P::int) a b. (P * a mod 7 + P * b mod 7) mod 7 = P * (a + b) mod 7"
    by (simp add: mod_simps algebra_simps)
  have c: "\<forall>(P::int) a b. P * a mod 7 * b mod 7 = P * (a * b) mod 7"
    by (simp add: mod_simps algebra_simps)
  have d: "\<forall>(P::int) k. P * (k mod 7) mod 7 = P * k mod 7"
    by (simp add: mod_simps)
  from a b c d show ?thesis
    unfolding curve_ok_def toy_def by simp
qed

lemma toy_affine_curve_ok: "curve_ok toy_affine"
  using toy_curve_ok by (simp add: curve_ok_def toy_affine_def)

lemma toy_simps:
  "Order toy = 7" "ScalarBaseMult toy k = k mod 7" "ScalarMult toy P k = (P * k) mod 7"
  "Add toy P Q = (P + Q) mod 7" "Marshal toy = toy_marshal" "IsOnCurve toy P = True"
  "NewCurvePointFromHash toy h = 1 + SetBytes h mod 6" "Sum256 toy = toy_sum"
  by (simp_all add: toy_def)

lemma toy_affine_simps:
  "Order toy_affine = 7" "ScalarBaseMult toy_affine k = k mod 7"
  "ScalarMult toy_affine P k = (P * k) mod 7"
  "Add toy_affine P Q = (P + Q) mod 7" "Marshal toy_affine = toy_marshal"
  "IsOnCurve toy_affine P = (P mod 7 \<noteq> 0)"
  "NewCurvePointFromHash toy_affine h = 1 + SetBytes h mod 6" "Sum256 toy_affine = toy_sum"
  by (simp_all add: toy_affine_def toy_def)

lemma foldl_add_zeros: "foldl (+) (a::byte) (replicate n 0) = a"
  by (induction n) simp_all

lemma SetBytes_zeros: "SetBytes (replicate n 0 @ xs) = SetBytes xs"
  by (induction n) (simp_all add: SetBytes_def)

lemma SetBytes_toy_acc: "SetBytes (toy_acc b) = uint b"
  by (simp add: toy_acc_def SetBytes_zeros) (simp add: SetBytes_def)

lemma length_toy_acc: "length (toy_acc b) = 32"
  by (simp add: toy_acc_def)

lemma foldl_add_toy_acc: "foldl (+) a (toy_acc b) = a + b"
  by (simp add: toy_acc_def foldl_add_zeros)

lemma foldl_add_toy_marshal: "foldl (+) a (toy_marshal p) = a + of_int p"
  by (simp add: toy_marshal_def foldl_add_zeros)

lemma take32_toy_marshal: "take 32 (toy_marshal p) = toy_acc (of_int p)"
  by (simp add: toy_marshal_def toy_acc_def)

lemma toy_sum_first: "toy_sum (toy_acc b @ toy_marshal q) = toy_acc (b + of_int q)"
  by (simp add: toy_sum_def foldl_add_toy_acc foldl_add_toy_marshal)

lemma toy_sum_next:
  "toy_sum (toy_acc b @ toy_marshal p @ toy_marshal q) = toy_acc (b + of_int p + of_int q)"
  by (simp add: toy_sum_def foldl_add_toy_acc foldl_add_toy_marshal)

lemma toy_sum_secret: "toy_sum (toy_acc b @ xs) = toy_acc (foldl (+) b xs)"
  by (simp add: toy_sum_def foldl_add_toy_acc)

section \<open>Ring hashing and indexing\<close>

lemma PublicKeysHashed_loop_foldl:
  "PublicKeysHashed_loop c r i out =
     foldl (\<lambda>h pk. Sum256 c (h @ Marshal c pk)) out (drop i (PubKeys r))"
proof (induction c r i out rule: PublicKeysHashed_loop.induct)
  case (1 c r i out)
  show ?case
  proof (cases "i < length (PubKeys r)")
    case True
    then have "drop i (PubKeys r) = PubKeys r ! i # drop (Suc i) (PubKeys r)"
      by (simp add: Cons_nth_drop_Suc)
    with True "1" show ?thesis
      by (subst PublicKeysHashed_loop.simps) simp
  next
    case False
    then show ?thesis
      by (subst PublicKeysHashed_loop.simps) simp
  qed
qed

text \<open>
  C9. \<open>PublicKeysHashed\<close> is the left fold of the specification over the ring's public keys
  in stored order: it starts from 32 zero bytes and each key \<open>pk\<close> replaces \<open>h\<close> by
  \<open>SHA-256(h || marshal(pk))\<close>.
\<close>

theorem PublicKeysHashed_is_fold:
  "PublicKeysHashed c r = public_keys_hashed_spec c (PubKeys r)"
  by (simp add: PublicKeysHashed_def public_keys_hashed_spec_def PublicKeysHashed_loop_foldl)

lemma PubKeyIndex_loop_absent:
  "\<forall>j. i \<le> j \<and> j < length (PubKeys r) \<longrightarrow> PubKeys r ! j \<noteq> pk \<Longrightarrow> PubKeyIndex_loop r pk i = -1"
proof (induction r pk i rule: PubKeyIndex_loop.induct)
  case (1 r pk i)
  show ?case
  proof (cases "i < length (PubKeys r)")
    case True
    with "1.prems" have ne: "PubKeys r ! i \<noteq> pk" by simp
    from "1.prems" have "\<forall>j. Suc i \<le> j \<and> j < length (PubKeys r) \<longrightarrow> PubKeys r ! j \<noteq> pk"
      by simp
    with "1.IH" True ne have "PubKeyIndex_loop r pk (Suc i) = -1" by simp
    with True ne show ?thesis
      by (subst PubKeyIndex_loop.simps) simp
  next
    case False
    then show ?thesis
      by (subst PubKeyIndex_loop.simps) simp
  qed
qed

lemma PubKeyIndex_loop_first:
  "i \<le> k \<Longrightarrow> k < length (PubKeys r) \<Longrightarrow> PubKeys r ! k = pk \<Longrightarrow>
   \<forall>j. i \<le> j \<and> j < k \<longrightarrow> PubKeys r ! j \<noteq> pk \<Longrightarrow> PubKeyIndex_loop r pk i = int k"
proof (induction r pk i rule: PubKeyIndex_loop.induct)
  case (1 r pk i)
  from "1.prems" have lt: "i < length (PubKeys r)" by simp
  show ?case
  proof (cases "i = k")
    case True
    with "1.prems" lt show ?thesis
      by (subst PubKeyIndex_loop.simps) simp
  next
    case False
    with "1.prems" have ik: "i < k" by simp
    with "1.prems" have ne: "PubKeys r ! i \<noteq> pk" by simp
    from "1.prems" ik have "PubKeyIndex_loop r pk (Suc i) = int k"
      using "1.IH" [OF lt ne] by simp
    with lt ne show ?thesis
      by (subst PubKeyIndex_loop.simps) simp
  qed
qed

text \<open>
  C10. \<open>PubKeyIndex\<close> returns the smallest index at which the ring stores a key equal to
  \<open>pk\<close>, and it returns \<open>-1\<close> exactly when \<open>pk\<close> does not occur among the ring's keys.
\<close>

theorem PubKeyIndex_least:
  "(PubKeyIndex r pk = -1 \<longleftrightarrow> pk \<notin> set (PubKeys r)) \<and>
   (pk \<in> set (PubKeys r) \<longrightarrow>
      (\<exists>i. PubKeyIndex r pk = int i \<and> i < length (PubKeys r) \<and> PubKeys r ! i = pk \<and>
           (\<forall>j<i. PubKeys r ! j \<noteq> pk)))"
proof -
  have absent: "PubKeyIndex r pk = -1" if "pk \<notin> set (PubKeys r)"
    unfolding PubKeyIndex_def using that
    by (intro PubKeyIndex_loop_absent) (auto simp: in_set_conv_nth)
  have present: "\<exists>i. PubKeyIndex r pk = int i \<and> i < length (PubKeys r) \<and> PubKeys r ! i = pk \<and>
           (\<forall>j<i. PubKeys r ! j \<noteq> pk)" if "pk \<in> set (PubKeys r)"
  proof -
    define k where "k = (LEAST i. i < length (PubKeys r) \<and> PubKeys r ! i = pk)"
    from that obtain i0 where "i0 < length (PubKeys r) \<and> PubKeys r ! i0 = pk"
      by (auto simp: in_set_conv_nth)
    then have k: "k < length (PubKeys r) \<and> PubKeys r ! k = pk"
      unfolding k_def by (rule LeastI)
    have least: "\<forall>j<k. PubKeys r ! j \<noteq> pk"
    proof (intro allI impI notI)
      fix j assume "j < k" and "PubKeys r ! j = pk"
      with k have "j < length (PubKeys r) \<and> PubKeys r ! j = pk" by simp
      then have "k \<le> j" unfolding k_def by (rule Least_le)
      with \<open>j < k\<close> show False by simp
    qed
    from k least have "PubKeyIndex_loop r pk 0 = int k"
      by (intro PubKeyIndex_loop_first) auto
    with k least show ?thesis
      by (auto simp: PubKeyIndex_def)
  qed
  have "pk \<notin> set (PubKeys r)" if "PubKeyIndex r pk = -1"
  proof
    assume "pk \<in> set (PubKeys r)"
    with present obtain i where "PubKeyIndex r pk = int i" by blast
    with that show False by simp
  qed
  with absent present show ?thesis by blast
qed

theorem PubKeyIndex_least_witness:
  "PubKeyIndex \<lparr>PubKeys = [3, 5, 3 :: int], PrivKeys = []\<rparr> 3 = 0 \<and>
   PubKeyIndex \<lparr>PubKeys = [3, 5, 3 :: int], PrivKeys = []\<rparr> 5 = 1 \<and>
   PubKeyIndex \<lparr>PubKeys = [3, 5, 3 :: int], PrivKeys = []\<rparr> 4 = -1"
  using PubKeyIndex_least [of "\<lparr>PubKeys = [3, 5, 3 :: int], PrivKeys = []\<rparr>" 3]
    PubKeyIndex_least [of "\<lparr>PubKeys = [3, 5, 3 :: int], PrivKeys = []\<rparr>" 5]
    PubKeyIndex_least [of "\<lparr>PubKeys = [3, 5, 3 :: int], PrivKeys = []\<rparr>" 4]
  by (simp add: PubKeyIndex_def PubKeyIndex_loop.simps)

section \<open>Completeness of the ring signature\<close>

lemma sign_loop_Suc:
  "j \<le> n \<Longrightarrow>
   sign_loop c r hashp hashSP signer rnd (Suc n) j st =
     sign_step c r hashp hashSP signer rnd n (sign_loop c r hashp hashSP signer rnd n j st)"
proof (induction c r hashp hashSP signer rnd n j st rule: sign_loop.induct)
  case (1 c r hashp hashSP signer rnd n j st)
  show ?case
  proof (cases "j < n")
    case True
    with "1.IH" show ?thesis
      by (simp add: sign_loop.simps [of _ _ _ _ _ _ _ j])
  next
    case False
    with "1.prems" have "j = n" by simp
    then show ?thesis
      by (simp add: sign_loop.simps [of _ _ _ _ _ _ _ n] sign_loop.simps [of _ _ _ _ _ _ _ "Suc n"])
  qed
qed

lemma sign_loop_0: "sign_loop c r hashp hashSP signer rnd 0 0 st = st"
  by (simp add: sign_loop.simps)

lemma verify_loop_Suc:
  "j \<le> n \<Longrightarrow>
   verify_loop c r hashp tau (Suc n) j st =
     (case verify_loop c r hashp tau n j st of
        Inl e \<Rightarrow> Inl e
      | Inr st' \<Rightarrow> verify_step c r hashp tau n st')"
proof (induction c r hashp tau n j st rule: verify_loop.induct)
  case (1 c r hashp tau n j st)
  show ?case
  proof (cases "j < n")
    case True
    with "1.IH" show ?thesis
      by (simp add: verify_loop.simps [of _ _ _ _ _ j] split: sum.splits)
  next
    case False
    with "1.prems" have "j = n" by simp
    then show ?thesis
      by (simp add: verify_loop.simps [of _ _ _ _ _ n] verify_loop.simps [of _ _ _ _ _ "Suc n"]
          split: sum.splits)
  qed
qed

lemma verify_loop_0: "verify_loop c r hashp tau 0 0 st = Inr st"
  by (simp add: verify_loop.simps)

lemma sign_loop_shape:
  "length (ctlist (sign_loop c r hashp hashSP (int s) rnd k 0 (sign_init acc0))) = 2 * k \<and>
   ri (sign_loop c r hashp hashSP (int s) rnd k 0 (sign_init acc0)) =
     (if s < k then Some (rnd (2 * s)) else None) \<and>
   draws (sign_loop c r hashp hashSP (int s) rnd k 0 (sign_init acc0)) =
     (if s < k then 2 * k - 1 else 2 * k)"
proof (induction k)
  case 0
  show ?case by (simp add: sign_loop_0 sign_init_def)
next
  case (Suc k)
  then show ?case
    by (auto simp: sign_loop_Suc sign_step_def Let_def)
qed

lemma reduce_prefix_update:
  assumes "2 * k + 1 < length L"
  shows "(map f (take (2 * k) L) @ drop (2 * k) L)[2 * k := f (L ! (2 * k)), 2 * k + 1 := f (L ! (2 * k + 1))]
         = map f (take (2 * Suc k) L) @ drop (2 * Suc k) L"
proof (rule nth_equalityI)
  show "length ((map f (take (2 * k) L) @ drop (2 * k) L)[2 * k := f (L ! (2 * k)), 2 * k + 1 := f (L ! (2 * k + 1))])
        = length (map f (take (2 * Suc k) L) @ drop (2 * Suc k) L)"
    using assms by simp
next
  fix i
  assume "i < length ((map f (take (2 * k) L) @ drop (2 * k) L)[2 * k := f (L ! (2 * k)), 2 * k + 1 := f (L ! (2 * k + 1))])"
  then have i: "i < length L" using assms by simp
  consider "i < 2 * k" | "i = 2 * k" | "i = 2 * k + 1" | "2 * k + 1 < i" by linarith
  then show "(map f (take (2 * k) L) @ drop (2 * k) L)[2 * k := f (L ! (2 * k)), 2 * k + 1 := f (L ! (2 * k + 1))] ! i
        = (map f (take (2 * Suc k) L) @ drop (2 * Suc k) L) ! i"
  proof cases
    case 1
    with i assms show ?thesis by (simp add: nth_append nth_list_update)
  next
    case 2
    with i assms show ?thesis by (simp add: nth_append nth_list_update)
  next
    case 3
    with i assms show ?thesis by (simp add: nth_append nth_list_update)
  next
    case 4
    with i assms have "i - 2 * Suc k + 2 * Suc k = i" by simp
    with 4 i assms show ?thesis by (simp add: nth_append nth_list_update)
  qed
qed

lemma reduce_prefix_nth:
  "2 * k \<le> i \<Longrightarrow> i < length L \<Longrightarrow> (map f (take (2 * k) L) @ drop (2 * k) L) ! i = L ! i"
  by (simp add: nth_append)

lemma curve_signer_base:
  assumes ok: "curve_ok c"
  shows "Add c (ScalarBaseMult c ((rs - ch * (x mod Order c)) mod Order c mod Order c))
               (ScalarMult c (ScalarBaseMult c x) (ch mod Order c)) = ScalarBaseMult c rs"
proof -
  from ok obtain G where G: "\<And>k. ScalarBaseMult c k = ScalarMult c G k"
    unfolding curve_ok_def by blast
  from ok have red: "\<And>P k. ScalarMult c P (k mod Order c) = ScalarMult c P k"
    and add: "\<And>P a b. Add c (ScalarMult c P a) (ScalarMult c P b) = ScalarMult c P (a + b)"
    and mul: "\<And>P a b. ScalarMult c (ScalarMult c P a) b = ScalarMult c P (a * b)"
    unfolding curve_ok_def by blast+
  have "x = x mod Order c + Order c * (x div Order c)"
    by simp
  then have "ch * x = ch * (x mod Order c) + ch * (Order c * (x div Order c))"
    by (metis distrib_left)
  then have "rs - ch * (x mod Order c) + x * ch = rs + Order c * (ch * (x div Order c))"
    by (simp add: algebra_simps)
  then have "(rs - ch * (x mod Order c) + x * ch) mod Order c
             = (rs + Order c * (ch * (x div Order c))) mod Order c"
    by (rule arg_cong)
  then have "(rs - ch * (x mod Order c) + x * ch) mod Order c = rs mod Order c"
    by (simp only: mod_mult_self2)
  then have "ScalarMult c G (rs - ch * (x mod Order c) + x * ch) = ScalarMult c G rs"
    by (metis red)
  then show ?thesis
    by (simp add: G red add mul)
qed

lemma curve_signer_hash:
  assumes ok: "curve_ok c"
  shows "Add c (ScalarMult c hashp ((rs - ch * x') mod Order c mod Order c))
               (ScalarMult c (ScalarMult c hashp x') (ch mod Order c)) = ScalarMult c hashp rs"
proof -
  from ok have red: "\<And>P k. ScalarMult c P (k mod Order c) = ScalarMult c P k"
    and add: "\<And>P a b. Add c (ScalarMult c P a) (ScalarMult c P b) = ScalarMult c P (a + b)"
    and mul: "\<And>P a b. ScalarMult c (ScalarMult c P a) b = ScalarMult c P (a * b)"
    unfolding curve_ok_def by blast+
  have "rs - ch * x' + x' * ch = rs" by (simp add: algebra_simps)
  then show ?thesis
    by (simp add: red add mul)
qed

lemma curve_decoy_base:
  assumes ok: "curve_ok c"
  shows "Add c (ScalarBaseMult c (tj mod Order c)) (ScalarMult c P (cj mod Order c))
         = ParameterPointAdd c P tj cj"
proof -
  from ok obtain G where G: "\<And>k. ScalarBaseMult c k = ScalarMult c G k"
    unfolding curve_ok_def by blast
  from ok have red: "\<And>P k. ScalarMult c P (k mod Order c) = ScalarMult c P k"
    unfolding curve_ok_def by blast
  show ?thesis by (simp add: ParameterPointAdd_def G red)
qed

lemma curve_decoy_hash:
  assumes ok: "curve_ok c"
  shows "Add c (ScalarMult c hashp (tj mod Order c)) (ScalarMult c Y (cj mod Order c))
         = HashPointAdd c hashp Y tj cj"
proof -
  from ok have red: "\<And>P k. ScalarMult c P (k mod Order c) = ScalarMult c P k"
    unfolding curve_ok_def by blast
  show ?thesis by (simp add: HashPointAdd_def red)
qed

lemma sign_step_ctlist_prefix:
  "i < length (ctlist st) \<Longrightarrow>
   ctlist (sign_step c r hashp hashSP signer rnd j st) ! i = ctlist st ! i"
  by (simp add: sign_step_def Let_def nth_append)

lemma verify_follows_sign:
  assumes ok: "curve_ok c"
    and key: "PubKeys r ! s = ScalarBaseMult c x"
  shows "2 * k \<le> length L \<Longrightarrow>
     (\<forall>i<2 * k. i \<noteq> 2 * s \<and> i \<noteq> 2 * s + 1 \<longrightarrow>
        L ! i = ctlist (sign_loop c r hashp (ScalarMult c hashp (x mod Order c)) (int s) rnd k 0 (sign_init acc0)) ! i) \<Longrightarrow>
     (s < k \<longrightarrow> L ! (2 * s) = ch \<and> L ! (2 * s + 1) = (rnd (2 * s) - ch * (x mod Order c)) mod Order c) \<Longrightarrow>
     verify_loop c r hashp (ScalarMult c hashp (x mod Order c)) k 0 \<lparr> ctlist = L, csum = 0, hashAcc = acc0 \<rparr>
     = Inr \<lparr> ctlist = map (\<lambda>v. v mod Order c) (take (2 * k) L) @ drop (2 * k) L,
             csum = (csum (sign_loop c r hashp (ScalarMult c hashp (x mod Order c)) (int s) rnd k 0 (sign_init acc0))
                      + (if s < k then ch else 0)) mod Order c,
             hashAcc = hashAcc (sign_loop c r hashp (ScalarMult c hashp (x mod Order c)) (int s) rnd k 0 (sign_init acc0)) \<rparr>"
proof (induction k)
  case 0
  show ?case
    by (simp add: verify_loop_0 sign_loop_0 sign_init_def)
next
  case (Suc k)
  define N where "N = Order c"
  define tau where "tau = ScalarMult c hashp (x mod N)"
  define S where "S = sign_loop c r hashp tau (int s) rnd k 0 (sign_init acc0)"
  define S' where "S' = sign_step c r hashp tau (int s) rnd k S"
  have S'_eq: "sign_loop c r hashp tau (int s) rnd (Suc k) 0 (sign_init acc0) = S'"
    by (simp add: S'_def S_def sign_loop_Suc)
  have shape: "length (ctlist S) = 2 * k" "ri S = (if s < k then Some (rnd (2 * s)) else None)"
    "draws S = (if s < k then 2 * k - 1 else 2 * k)"
    using sign_loop_shape [of c r hashp tau s rnd k acc0] by (simp_all add: S_def)
  have len: "2 * k + 1 < length L" using Suc.prems(1) by simp
  have pre1: "2 * k \<le> length L" using len by simp
  have pre2: "\<forall>i<2 * k. i \<noteq> 2 * s \<and> i \<noteq> 2 * s + 1 \<longrightarrow> L ! i = ctlist S ! i"
  proof (intro allI impI)
    fix i assume i: "i < 2 * k" and ne: "i \<noteq> 2 * s \<and> i \<noteq> 2 * s + 1"
    from i have "i < 2 * Suc k" by simp
    with Suc.prems(2) ne have "L ! i = ctlist S' ! i"
      unfolding N_def [symmetric] tau_def [symmetric] S'_eq by blast
    also have "\<dots> = ctlist S ! i"
      unfolding S'_def using i shape(1) by (simp add: sign_step_ctlist_prefix)
    finally show "L ! i = ctlist S ! i" .
  qed
  have pre3: "s < k \<longrightarrow> L ! (2 * s) = ch \<and> L ! (2 * s + 1) = (rnd (2 * s) - ch * (x mod N)) mod N"
    using Suc.prems(3) by (simp add: N_def)
  define V where "V = \<lparr> ctlist = map (\<lambda>v. v mod N) (take (2 * k) L) @ drop (2 * k) L,
             csum = (csum S + (if s < k then ch else 0)) mod N, hashAcc = hashAcc S \<rparr>"
  have IH: "verify_loop c r hashp tau k 0 \<lparr> ctlist = L, csum = 0, hashAcc = acc0 \<rparr> = Inr V"
    using Suc.IH [OF pre1] pre2 pre3
    unfolding N_def [symmetric] tau_def [symmetric] S_def [symmetric] V_def by blast
  have Vlen: "length (ctlist V) = length L" using pre1 by (simp add: V_def)
  have V0: "ctlist V ! (2 * k) = L ! (2 * k)" and V1: "ctlist V ! Suc (2 * k) = L ! Suc (2 * k)"
    using len reduce_prefix_nth [of k "2 * k" L] reduce_prefix_nth [of k "Suc (2 * k)" L]
    by (simp_all add: V_def)
  have Vc: "csum V = (csum S + (if s < k then ch else 0)) mod N" and Vh: "hashAcc V = hashAcc S"
    by (simp_all add: V_def)
  have upd: "(ctlist V)[2 * k := L ! (2 * k) mod N, Suc (2 * k) := L ! Suc (2 * k) mod N]
             = map (\<lambda>v. v mod N) (take (2 * Suc k) L) @ drop (2 * Suc k) L"
    unfolding V_def using reduce_prefix_update [OF len, of "\<lambda>v. v mod N"] by simp
  have step: "verify_step c r hashp tau k V =
      Inr \<lparr> ctlist = map (\<lambda>v. v mod N) (take (2 * Suc k) L) @ drop (2 * Suc k) L,
             csum = (csum S' + (if s < Suc k then ch else 0)) mod N,
             hashAcc = hashAcc S' \<rparr>"
  proof (cases "k = s")
    case True
    have Ls: "L ! (2 * k) = ch" "L ! Suc (2 * k) = (rnd (2 * k) - ch * (x mod N)) mod N"
      using Suc.prems(3) True by (simp_all add: N_def)
    have a: "Add c (ScalarBaseMult c ((rnd (2 * k) - ch * (x mod N)) mod N mod N))
               (ScalarMult c (PubKeys r ! k) (ch mod N)) = ScalarBaseMult c (rnd (2 * k))"
      using curve_signer_base [OF ok, of "rnd (2 * k)" ch x] key True by (simp add: N_def)
    have b: "Add c (ScalarMult c hashp ((rnd (2 * k) - ch * (x mod N)) mod N mod N))
               (ScalarMult c tau (ch mod N)) = ScalarMult c hashp (rnd (2 * k))"
      using curve_signer_hash [OF ok, of hashp "rnd (2 * k)" ch "x mod N"]
      by (simp add: N_def tau_def)
    have S'v: "csum S' = csum S" "hashAcc S' = Sum256 c (hashAcc S @ Marshal c (ScalarBaseMult c (rnd (2 * k)))
                  @ Marshal c (ScalarMult c hashp (rnd (2 * k))))"
      using True shape by (simp_all add: S'_def sign_step_def Let_def)
    have cs: "((csum S + (if s < k then ch else 0)) mod N + ch mod N) mod N
              = (csum S' + (if s < Suc k then ch else 0)) mod N"
      using True by (simp add: S'v mod_simps)
    show ?thesis
      unfolding verify_step_def Let_def N_def [symmetric]
      using len Vlen upd a b cs
      by (simp add: V0 V1 Ls S'v Vc Vh)
  next
    case False
    define cj where "cj = rnd (draws S)"
    define tj where "tj = rnd (draws S + 1)"
    have S'c: "ctlist S' = ctlist S @ [cj, tj]" "csum S' = csum S + cj"
      "hashAcc S' = Sum256 c (hashAcc S @ Marshal c (ParameterPointAdd c (PubKeys r ! k) tj cj)
                  @ Marshal c (HashPointAdd c hashp tau tj cj))"
      using False by (simp_all add: S'_def sign_step_def Let_def cj_def tj_def)
    have "2 * k < 2 * Suc k \<and> 2 * k \<noteq> 2 * s \<and> 2 * k \<noteq> 2 * s + 1" using False by presburger
    with Suc.prems(2) have "L ! (2 * k) = ctlist S' ! (2 * k)"
      unfolding N_def [symmetric] tau_def [symmetric] S'_eq by blast
    then have L0: "L ! (2 * k) = cj" using shape(1) by (simp add: S'c nth_append)
    have "2 * k + 1 < 2 * Suc k \<and> 2 * k + 1 \<noteq> 2 * s \<and> 2 * k + 1 \<noteq> 2 * s + 1"
      using False by presburger
    with Suc.prems(2) have "L ! (2 * k + 1) = ctlist S' ! (2 * k + 1)"
      unfolding N_def [symmetric] tau_def [symmetric] S'_eq by blast
    then have L1: "L ! Suc (2 * k) = tj" using shape(1) by (simp add: S'c nth_append)
    have a: "Add c (ScalarBaseMult c (tj mod N)) (ScalarMult c (PubKeys r ! k) (cj mod N))
             = ParameterPointAdd c (PubKeys r ! k) tj cj"
      using curve_decoy_base [OF ok] by (simp add: N_def)
    have b: "Add c (ScalarMult c hashp (tj mod N)) (ScalarMult c tau (cj mod N))
             = HashPointAdd c hashp tau tj cj"
      using curve_decoy_hash [OF ok] by (simp add: N_def)
    have d: "(if s < Suc k then ch else 0) = (if s < k then ch else 0)"
      using False by auto
    have "((csum S + (if s < k then ch else 0)) mod N + cj mod N) mod N
              = (csum S + (if s < k then ch else 0) + cj) mod N"
      by (rule mod_add_eq)
    also have "csum S + (if s < k then ch else 0) + cj = csum S' + (if s < Suc k then ch else 0)"
      by (simp add: S'c d)
    finally have cs: "((csum S + (if s < k then ch else 0)) mod N + cj mod N) mod N
              = (csum S' + (if s < Suc k then ch else 0)) mod N" .
    show ?thesis
      unfolding verify_step_def Let_def N_def [symmetric]
      using len Vlen upd a b cs
      by (simp add: V0 V1 L0 L1 S'c Vc Vh)
  qed
  have "verify_loop c r hashp tau (Suc k) 0 \<lparr> ctlist = L, csum = 0, hashAcc = acc0 \<rparr>
        = verify_step c r hashp tau k V"
    by (simp add: verify_loop_Suc IH)
  with step show ?case
    unfolding N_def [symmetric] tau_def [symmetric] S'_eq by simp
qed

lemma challenge_closes:
  "((a + (h mod N - a mod N) mod N) mod N) mod N = h mod (N::int)"
proof -
  have "(a + (h mod N - a mod N) mod N) mod N = (a + (h mod N - a mod N)) mod N"
    by (rule mod_add_right_eq)
  also have "a + (h mod N - a mod N) = h mod N + N * (a div N)"
    by (simp add: algebra_simps minus_mod_eq_mult_div [symmetric])
  also have "(h mod N + N * (a div N)) mod N = h mod N"
    by simp
  finally show ?thesis by simp
qed

lemma Signature_unfold:
  fixes c :: "'p prims" and r :: "'p Ring" and x :: int and m :: "byte list" and s :: nat
    and rnd :: "nat \<Rightarrow> int"
  assumes s: "s < length (PubKeys r)"
  defines "N \<equiv> Order c"
  defines "hashp \<equiv> NewCurvePointFromHash c (messageHash m)"
  defines "tau \<equiv> ScalarMult c hashp (x mod N)"
  defines "acc0 \<equiv> Sum256 c (take 32 (Marshal c hashp) @ Marshal c tau)"
  defines "S \<equiv> sign_loop c r hashp tau (int s) rnd (length (PubKeys r)) 0 (sign_init acc0)"
  defines "ch \<equiv> (SetBytes (hashAcc S) mod N - csum S mod N) mod N"
  shows "Signature c r x m (int s) rnd =
     (x mod N, Inr \<lparr> Tau = tau,
          Ctlist = (ctlist S)[2 * s := ch, 2 * s + 1 := (rnd (2 * s) - ch * (x mod N)) mod N] \<rparr>)"
proof -
  have shape: "length (ctlist S) = 2 * length (PubKeys r)" "ri S = Some (rnd (2 * s))"
    using sign_loop_shape [of c r hashp tau s rnd "length (PubKeys r)" acc0] s
    by (simp_all add: S_def)
  have n1: "nat (2 * int s) = 2 * s" and n2: "nat (2 * int s + 1) = 2 * s + 1"
    by simp_all
  have S_eq: "sign_loop c r hashp tau (int s) rnd (length (PubKeys r)) 0 (sign_init acc0) = S"
    by (simp add: S_def)
  show ?thesis
    unfolding Signature_def Let_def N_def [symmetric] hashp_def [symmetric] tau_def [symmetric]
      acc0_def [symmetric] S_eq
    using s shape by (simp add: n1 n2 mod_diff_right_eq ch_def)
qed

text \<open>
  C1. Completeness of the ring signature: for a curve primitive that satisfies the
  algebraic contract, every ring, every signer index \<open>s\<close> inside the ring, every secret
  \<open>x\<close> with \<open>[x]G\<close> equal to the ring's key at \<open>s\<close>, every message and every outcome of the
  random draws, \<open>Signature\<close> returns a signature and \<open>VerifySignature\<close> returns \<open>true\<close> on it.
\<close>

theorem Signature_verifies:
  assumes ok: "curve_ok c"
    and s: "s < length (PubKeys r)"
    and key: "ScalarBaseMult c x = PubKeys r ! s"
  shows "\<exists>sg. snd (Signature c r x m (int s) rnd) = Inr sg \<and> VerifySignature c r m sg = Inr True"
proof -
  define N where "N = Order c"
  define hashp where "hashp = NewCurvePointFromHash c (messageHash m)"
  define tau where "tau = ScalarMult c hashp (x mod N)"
  define acc0 where "acc0 = Sum256 c (take 32 (Marshal c hashp) @ Marshal c tau)"
  define S where "S = sign_loop c r hashp tau (int s) rnd (length (PubKeys r)) 0 (sign_init acc0)"
  define ch where "ch = (SetBytes (hashAcc S) mod N - csum S mod N) mod N"
  define L where "L = (ctlist S)[2 * s := ch, 2 * s + 1 := (rnd (2 * s) - ch * (x mod N)) mod N]"
  define sg where "sg = \<lparr> Tau = tau, Ctlist = L \<rparr>"
  have sig: "Signature c r x m (int s) rnd = (x mod N, Inr sg)"
    using Signature_unfold [OF s, where c = c and m = m and x = x and rnd = rnd]
    by (simp add: sg_def L_def ch_def S_def acc0_def tau_def hashp_def N_def)
  have len: "length (ctlist S) = 2 * length (PubKeys r)"
    using sign_loop_shape [of c r hashp tau s rnd "length (PubKeys r)" acc0] by (simp add: S_def)
  have p1: "2 * length (PubKeys r) \<le> length L" by (simp add: L_def len)
  have p2: "\<forall>i<2 * length (PubKeys r). i \<noteq> 2 * s \<and> i \<noteq> 2 * s + 1 \<longrightarrow> L ! i = ctlist S ! i"
    by (simp add: L_def)
  have p3: "s < length (PubKeys r) \<longrightarrow>
      L ! (2 * s) = ch \<and> L ! (2 * s + 1) = (rnd (2 * s) - ch * (x mod N)) mod N"
    using s len by (simp add: L_def)
  have run: "verify_loop c r hashp tau (length (PubKeys r)) 0 \<lparr> ctlist = L, csum = 0, hashAcc = acc0 \<rparr>
     = Inr \<lparr> ctlist = map (\<lambda>v. v mod N) (take (2 * length (PubKeys r)) L) @ drop (2 * length (PubKeys r)) L,
             csum = (csum S + ch) mod N, hashAcc = hashAcc S \<rparr>"
    using verify_follows_sign [OF ok key [symmetric], of "length (PubKeys r)" L hashp rnd acc0 ch] p1 p2 p3 s
    unfolding N_def [symmetric] tau_def [symmetric] S_def [symmetric] by simp
  have "VerifySignature c r m sg = Inr ((csum S + ch) mod N mod N = SetBytes (hashAcc S) mod N)"
    unfolding VerifySignature_def VerifySignature_run_def Let_def
    by (simp add: sg_def hashp_def [symmetric] acc0_def [symmetric] run N_def [symmetric])
  moreover have "(csum S + ch) mod N mod N = SetBytes (hashAcc S) mod N"
    unfolding ch_def by (rule challenge_closes)
  ultimately have "VerifySignature c r m sg = Inr True" by simp
  with sig show ?thesis by simp
qed

theorem Signature_verifies_witness:
  "curve_ok toy \<and> (1::nat) < length (PubKeys toy_ring) \<and>
   ScalarBaseMult toy 5 = PubKeys toy_ring ! 1 \<and>
   (\<exists>sg. snd (Signature toy toy_ring 5 [1, 2, 3] 1 toy_rnd) = Inr sg \<and>
         VerifySignature toy toy_ring [1, 2, 3] sg = Inr True)"
  using Signature_verifies [where c = toy and s = 1 and r = toy_ring and x = 5
      and m = "[1, 2, 3]" and rnd = toy_rnd] toy_curve_ok
  by (simp add: toy_ring_def toy_simps)

section \<open>Key image\<close>

lemma length_messageHash: "length (messageHash m) = 32"
  by (simp add: messageHash_def)

lemma messageHash_32: "length m = 32 \<Longrightarrow> messageHash m = m"
  by (simp add: messageHash_def)

lemma messageHash_idem: "messageHash (messageHash m) = messageHash m"
  by (rule messageHash_32) (rule length_messageHash)

lemma Signature_Tau:
  assumes a: "snd (Signature c r x m signer rnd) = Inr sg"
  shows "Tau sg = ScalarMult c (NewCurvePointFromHash c (messageHash m)) (x mod Order c)"
proof -
  define hashp where "hashp = NewCurvePointFromHash c (messageHash m)"
  define hashSP where "hashSP = ScalarMult c hashp (x mod Order c)"
  define st where "st = sign_loop c r hashp hashSP signer rnd (length (PubKeys r)) 0
      (sign_init (Sum256 c (take 32 (Marshal c hashp) @ Marshal c hashSP)))"
  define b1 where "b1 \<longleftrightarrow> 0 \<le> 2 * signer \<and> nat (2 * signer) < length (ctlist st)"
  define b2 where "b2 \<longleftrightarrow> nat (2 * signer + 1) < length (ctlist st)"
  have eq: "snd (Signature c r x m signer rnd) =
     (case ri st of None \<Rightarrow> Inl PanicNilDereference
      | Some rs \<Rightarrow>
          if b1 then
            if b2 then
              Inr \<lparr> Tau = hashSP,
                    Ctlist = (ctlist st)[nat (2 * signer) :=
                       (SetBytes (hashAcc st) mod Order c - csum st mod Order c) mod Order c,
                     nat (2 * signer + 1) :=
                       (rs - (SetBytes (hashAcc st) mod Order c - csum st mod Order c) mod Order c
                          * (x mod Order c) mod Order c) mod Order c] \<rparr>
            else Inl PanicIndexOutOfRange
          else Inl PanicIndexOutOfRange)"
    unfolding Signature_def Let_def hashp_def hashSP_def st_def b1_def b2_def snd_conv ..
  show ?thesis
  proof (cases "ri st")
    case None
    with a eq show ?thesis by simp
  next
    case (Some rs)
    show ?thesis
    proof (cases "b1 \<and> b2")
      case True
      with a eq Some have "Tau sg = hashSP" by auto
      then show ?thesis by (simp add: hashSP_def hashp_def)
    next
      case False
      with a eq Some show ?thesis by (auto split: if_splits)
    qed
  qed
qed

lemma Signature_returns:
  "s < length (PubKeys r) \<Longrightarrow> \<exists>sg. snd (Signature c r x m (int s) rnd) = Inr sg"
  using Signature_unfold [of s r c x m rnd] by simp

text \<open>
  C3. Key image and linkability: every signature that \<open>Signature\<close> returns has
  \<open>tau = [x mod N] Hp\<close>, where \<open>Hp\<close> is the hash-to-curve image of the 32-byte message
  buffer (the message itself when it has 32 bytes). Hence two signatures made with the
  same secret over the same message have the same \<open>tau\<close>, whatever the rings, signer
  indices and random draws. A signer index inside the ring always yields a signature.
\<close>

theorem Signature_key_image:
  "(\<forall>sg. snd (Signature c r x m signer rnd) = Inr sg \<longrightarrow>
      Tau sg = ScalarMult c (NewCurvePointFromHash c (messageHash m)) (x mod Order c)) \<and>
   (length m = 32 \<longrightarrow> messageHash m = m) \<and>
   (\<forall>r' signer' rnd' sg sg'.
      snd (Signature c r x m signer rnd) = Inr sg \<and>
      snd (Signature c r' x m signer' rnd') = Inr sg' \<longrightarrow> Tau sg = Tau sg') \<and>
   (0 \<le> signer \<and> signer < int (length (PubKeys r)) \<longrightarrow>
      (\<exists>sg. snd (Signature c r x m signer rnd) = Inr sg))"
proof (intro conjI allI impI)
  fix sg assume "snd (Signature c r x m signer rnd) = Inr sg"
  then show "Tau sg = ScalarMult c (NewCurvePointFromHash c (messageHash m)) (x mod Order c)"
    by (rule Signature_Tau)
next
  assume "length m = 32" then show "messageHash m = m" by (rule messageHash_32)
next
  fix r' signer' rnd' sg sg'
  assume "snd (Signature c r x m signer rnd) = Inr sg \<and>
      snd (Signature c r' x m signer' rnd') = Inr sg'"
  then have "Tau sg = ScalarMult c (NewCurvePointFromHash c (messageHash m)) (x mod Order c)"
    and "Tau sg' = ScalarMult c (NewCurvePointFromHash c (messageHash m)) (x mod Order c)"
    using Signature_Tau [of c r x m signer rnd sg] Signature_Tau [of c r' x m signer' rnd' sg']
    by blast+
  then show "Tau sg = Tau sg'" by simp
next
  assume a: "0 \<le> signer \<and> signer < int (length (PubKeys r))"
  then have "nat signer < length (PubKeys r)" by linarith
  then have "\<exists>sg. snd (Signature c r x m (int (nat signer)) rnd) = Inr sg"
    by (rule Signature_returns)
  with a show "\<exists>sg. snd (Signature c r x m signer rnd) = Inr sg" by simp
qed

theorem Signature_key_image_witness:
  "length (replicate 32 (1::byte)) = 32 \<and> (0::int) \<le> 1 \<and> (1::int) < int (length (PubKeys toy_ring)) \<and>
   (\<exists>sg. snd (Signature toy toy_ring 5 (replicate 32 1) 1 toy_rnd) = Inr sg \<and>
      Tau sg = ScalarMult toy (NewCurvePointFromHash toy (replicate 32 1)) (5 mod Order toy) \<and>
      (\<exists>sg'. snd (Signature toy \<lparr>PubKeys = [5], PrivKeys = []\<rparr> 5 (replicate 32 1) 0 (\<lambda>k. 4)) = Inr sg' \<and>
         Tau sg = Tau sg'))"
proof -
  define m :: "byte list" where "m = replicate 32 1"
  note ki = Signature_key_image [where c = toy and r = toy_ring and x = 5 and m = m
      and signer = 1 and rnd = toy_rnd]
  have len: "length m = 32" by (simp add: m_def)
  have in_ring: "(0::int) \<le> 1 \<and> (1::int) < int (length (PubKeys toy_ring))"
    by (simp add: toy_ring_def)
  from ki in_ring obtain sg where sg: "snd (Signature toy toy_ring 5 m 1 toy_rnd) = Inr sg"
    by blast
  have "(0::int) \<le> 0 \<and> (0::int) < int (length (PubKeys \<lparr>PubKeys = [5::int], PrivKeys = []\<rparr>))"
    by simp
  with Signature_key_image [where c = toy and r = "\<lparr>PubKeys = [5], PrivKeys = []\<rparr>" and x = 5
      and m = m and signer = 0 and rnd = "\<lambda>k. 4"]
  obtain sg' where
    sg': "snd (Signature toy \<lparr>PubKeys = [5], PrivKeys = []\<rparr> 5 m 0 (\<lambda>k. 4)) = Inr sg'"
    by blast
  from ki sg have t: "Tau sg = ScalarMult toy (NewCurvePointFromHash toy (messageHash m)) (5 mod Order toy)"
    by blast
  from ki len have mh: "messageHash m = m" by blast
  from ki have "\<forall>r' signer' rnd' sg sg'.
      snd (Signature toy toy_ring 5 m 1 toy_rnd) = Inr sg \<and>
      snd (Signature toy r' 5 m signer' rnd') = Inr sg' \<longrightarrow> Tau sg = Tau sg'"
    by blast
  with sg sg' have link: "Tau sg = Tau sg'" by blast
  from t mh have t': "Tau sg = ScalarMult toy (NewCurvePointFromHash toy m) (5 mod Order toy)"
    by (simp only:)
  from sg' link have "\<exists>sg'. snd (Signature toy \<lparr>PubKeys = [5], PrivKeys = []\<rparr> 5 m 0 (\<lambda>k. 4)) = Inr sg' \<and>
         Tau sg = Tau sg'" by blast
  with sg t' have "\<exists>sg. snd (Signature toy toy_ring 5 m 1 toy_rnd) = Inr sg \<and>
      Tau sg = ScalarMult toy (NewCurvePointFromHash toy m) (5 mod Order toy) \<and>
      (\<exists>sg'. snd (Signature toy \<lparr>PubKeys = [5], PrivKeys = []\<rparr> 5 m 0 (\<lambda>k. 4)) = Inr sg' \<and>
         Tau sg = Tau sg')" by blast
  with len in_ring show ?thesis unfolding m_def by blast
qed

section \<open>The message buffer\<close>

lemma Signature_is_signature:
  "0 \<le> signer \<Longrightarrow> signer < int (length (PubKeys r)) \<Longrightarrow>
   \<not> isl (snd (Signature c r x m signer rnd))"
proof -
  assume a: "0 \<le> signer" "signer < int (length (PubKeys r))"
  then have "nat signer < length (PubKeys r)" by linarith
  then have "\<exists>sg. snd (Signature c r x m (int (nat signer)) rnd) = Inr sg"
    by (rule Signature_returns)
  with a show ?thesis by auto
qed

text \<open>
  A message of three bytes is not rejected: the call returns a signature.
\<close>

theorem Signature_short_message_counterexample:
  "length [1, 2, 3 :: byte] \<noteq> 32 \<and> \<not> isl (snd (Signature toy toy_ring 5 [1, 2, 3] 1 toy_rnd))"
proof -
  have "(0::int) \<le> 1" "(1::int) < int (length (PubKeys toy_ring))"
    by (simp_all add: toy_ring_def)
  then have "\<not> isl (snd (Signature toy toy_ring 5 [1, 2, 3] 1 toy_rnd))"
    by (rule Signature_is_signature)
  then show ?thesis by simp
qed

text \<open>
  C8, as the code has it. \<open>Signature\<close> has no length check and never rejects a message for
  its length: it signs the 32-byte buffer that holds the first 32 bytes of the message,
  zero-padded on the right, so a message and its buffer give the same result, and every
  signer index inside the ring yields a signature whatever the length of the message.
\<close>

theorem Signature_pads_message:
  "Signature c r x m signer rnd = Signature c r x (messageHash m) signer rnd \<and>
   length (messageHash m) = 32 \<and>
   messageHash m = take 32 m @ replicate (32 - length m) 0 \<and>
   (0 \<le> signer \<and> signer < int (length (PubKeys r)) \<longrightarrow>
      \<not> isl (snd (Signature c r x m signer rnd)))"
proof (intro conjI impI)
  show "Signature c r x m signer rnd = Signature c r x (messageHash m) signer rnd"
    unfolding Signature_def messageHash_idem ..
  show "length (messageHash m) = 32" by (rule length_messageHash)
  show "messageHash m = take 32 m @ replicate (32 - length m) 0" by (rule messageHash_def)
next
  assume "0 \<le> signer \<and> signer < int (length (PubKeys r))"
  then show "\<not> isl (snd (Signature c r x m signer rnd))"
    by (simp add: Signature_is_signature)
qed

theorem Signature_pads_message_witness:
  "(0::int) \<le> 1 \<and> (1::int) < int (length (PubKeys toy_ring)) \<and>
   \<not> isl (snd (Signature toy toy_ring 5 [1, 2, 3] 1 toy_rnd)) \<and>
   Signature toy toy_ring 5 [1, 2, 3] 1 toy_rnd =
     Signature toy toy_ring 5 (messageHash [1, 2, 3]) 1 toy_rnd"
proof -
  have h: "(0::int) \<le> 1 \<and> (1::int) < int (length (PubKeys toy_ring))"
    by (simp add: toy_ring_def)
  with Signature_pads_message [where c = toy and r = toy_ring and x = 5 and m = "[1, 2, 3]"
      and signer = 1 and rnd = toy_rnd]
  show ?thesis by blast
qed

section \<open>Verification and the length of the signature\<close>

lemma verify_step_cases:
  "verify_step c r hashp tau j st = Inl PanicIndexOutOfRange \<and> \<not> 2 * j + 1 < length (ctlist st) \<or>
   (\<exists>st'. verify_step c r hashp tau j st = Inr st' \<and> length (ctlist st') = length (ctlist st) \<and>
      2 * j + 1 < length (ctlist st))"
  by (simp add: verify_step_def Let_def)

lemma verify_loop_short:
  "j < n \<Longrightarrow> length (ctlist st) < 2 * n \<Longrightarrow>
   verify_loop c r hashp tau n j st = Inl PanicIndexOutOfRange"
proof (induction c r hashp tau n j st rule: verify_loop.induct)
  case (1 c r hashp tau n j st)
  from verify_step_cases [of c r hashp tau j st] show ?case
  proof (elim disjE conjE exE)
    assume "verify_step c r hashp tau j st = Inl PanicIndexOutOfRange"
    with "1.prems" show ?thesis
      by (simp add: verify_loop.simps [of _ _ _ _ n j])
  next
    fix st'
    assume s: "verify_step c r hashp tau j st = Inr st'"
      and l: "length (ctlist st') = length (ctlist st)"
      and b: "2 * j + 1 < length (ctlist st)"
    from b "1.prems" have "Suc j < n" by linarith
    with "1.IH" [OF "1.prems"(1) s] l "1.prems"
    have "verify_loop c r hashp tau n (Suc j) st' = Inl PanicIndexOutOfRange" by simp
    with "1.prems" s show ?thesis
      by (simp add: verify_loop.simps [of _ _ _ _ n j])
  qed
qed

lemma verify_step_prefix:
  assumes "2 * k + 1 < length L" "2 * k + 1 < length L'" "take (2 * Suc k) L = take (2 * Suc k) L'"
  shows "\<exists>cs h.
     verify_step c r hashp tau k
        \<lparr> ctlist = map (\<lambda>v. v mod Order c) (take (2 * k) L) @ drop (2 * k) L, csum = cs0, hashAcc = h0 \<rparr>
       = Inr \<lparr> ctlist = map (\<lambda>v. v mod Order c) (take (2 * Suc k) L) @ drop (2 * Suc k) L,
               csum = cs, hashAcc = h \<rparr> \<and>
     verify_step c r hashp tau k
        \<lparr> ctlist = map (\<lambda>v. v mod Order c) (take (2 * k) L') @ drop (2 * k) L', csum = cs0, hashAcc = h0 \<rparr>
       = Inr \<lparr> ctlist = map (\<lambda>v. v mod Order c) (take (2 * Suc k) L') @ drop (2 * Suc k) L',
               csum = cs, hashAcc = h \<rparr>"
proof -
  have e0: "L ! (2 * k) = L' ! (2 * k)"
    using assms nth_take [of "2 * k" "2 * Suc k" L] nth_take [of "2 * k" "2 * Suc k" L'] by simp
  have e1: "L ! Suc (2 * k) = L' ! Suc (2 * k)"
    using assms nth_take [of "Suc (2 * k)" "2 * Suc k" L] nth_take [of "Suc (2 * k)" "2 * Suc k" L']
    by simp
  have n0: "(map (\<lambda>v. v mod Order c) (take (2 * k) L) @ drop (2 * k) L) ! (2 * k) = L ! (2 * k)"
    and n1: "(map (\<lambda>v. v mod Order c) (take (2 * k) L) @ drop (2 * k) L) ! Suc (2 * k) = L ! Suc (2 * k)"
    using assms(1) reduce_prefix_nth [of k "2 * k" L] reduce_prefix_nth [of k "Suc (2 * k)" L]
    by simp_all
  have n0': "(map (\<lambda>v. v mod Order c) (take (2 * k) L') @ drop (2 * k) L') ! (2 * k) = L' ! (2 * k)"
    and n1': "(map (\<lambda>v. v mod Order c) (take (2 * k) L') @ drop (2 * k) L') ! Suc (2 * k) = L' ! Suc (2 * k)"
    using assms(2) reduce_prefix_nth [of k "2 * k" L'] reduce_prefix_nth [of k "Suc (2 * k)" L']
    by simp_all
  have u: "(map (\<lambda>v. v mod Order c) (take (2 * k) L) @ drop (2 * k) L)
             [2 * k := L ! (2 * k) mod Order c, Suc (2 * k) := L ! Suc (2 * k) mod Order c]
           = map (\<lambda>v. v mod Order c) (take (2 * Suc k) L) @ drop (2 * Suc k) L"
    using reduce_prefix_update [OF assms(1), of "\<lambda>v. v mod Order c"] by simp
  have u': "(map (\<lambda>v. v mod Order c) (take (2 * k) L') @ drop (2 * k) L')
             [2 * k := L' ! (2 * k) mod Order c, Suc (2 * k) := L' ! Suc (2 * k) mod Order c]
           = map (\<lambda>v. v mod Order c) (take (2 * Suc k) L') @ drop (2 * Suc k) L'"
    using reduce_prefix_update [OF assms(2), of "\<lambda>v. v mod Order c"] by simp
  show ?thesis
    unfolding verify_step_def Let_def
    using assms(1,2) u u' by (simp add: n0 n1 n0' n1' e0 e1)
qed

lemma verify_loop_prefix:
  "2 * k \<le> length L \<Longrightarrow> 2 * k \<le> length L' \<Longrightarrow> take (2 * k) L = take (2 * k) L' \<Longrightarrow>
   \<exists>cs h.
     verify_loop c r hashp tau k 0 \<lparr> ctlist = L, csum = cs0, hashAcc = h0 \<rparr>
       = Inr \<lparr> ctlist = map (\<lambda>v. v mod Order c) (take (2 * k) L) @ drop (2 * k) L,
               csum = cs, hashAcc = h \<rparr> \<and>
     verify_loop c r hashp tau k 0 \<lparr> ctlist = L', csum = cs0, hashAcc = h0 \<rparr>
       = Inr \<lparr> ctlist = map (\<lambda>v. v mod Order c) (take (2 * k) L') @ drop (2 * k) L',
               csum = cs, hashAcc = h \<rparr>"
proof (induction k)
  case 0
  show ?case by (simp add: verify_loop_0)
next
  case (Suc k)
  have t: "take (2 * k) L = take (2 * k) L'"
    using Suc.prems(3) by (metis min.absorb1 take_take mult_le_mono2 le_SucI le_refl)
  from Suc.prems have l: "2 * k \<le> length L" "2 * k \<le> length L'" by simp_all
  from Suc.IH [OF l t] obtain cs h where
    a: "verify_loop c r hashp tau k 0 \<lparr> ctlist = L, csum = cs0, hashAcc = h0 \<rparr>
       = Inr \<lparr> ctlist = map (\<lambda>v. v mod Order c) (take (2 * k) L) @ drop (2 * k) L,
               csum = cs, hashAcc = h \<rparr>"
    and b: "verify_loop c r hashp tau k 0 \<lparr> ctlist = L', csum = cs0, hashAcc = h0 \<rparr>
       = Inr \<lparr> ctlist = map (\<lambda>v. v mod Order c) (take (2 * k) L') @ drop (2 * k) L',
               csum = cs, hashAcc = h \<rparr>"
    by blast
  from Suc.prems have l2: "2 * k + 1 < length L" "2 * k + 1 < length L'" by simp_all
  from verify_step_prefix [OF l2 Suc.prems(3), of c r hashp tau cs h]
  show ?case
    by (simp add: verify_loop_Suc a b)
qed

lemma toy_msg_hash: "messageHash toy_msg = toy_acc 3"
  by (simp add: messageHash_def toy_msg_def toy_acc_def)

lemma toy_long_accept:
  "VerifySignature toy toy_ring1 toy_msg \<lparr>Tau = 6, Ctlist = [6, 0, 100]\<rparr> = Inr True"
  by (simp add: VerifySignature_def VerifySignature_run_def Let_def toy_msg_hash toy_ring1_def
      verify_loop.simps verify_step_def toy_simps SetBytes_toy_acc take32_toy_marshal
      toy_sum_first toy_sum_next)

lemma toy_short_panic:
  "VerifySignature toy toy_ring1 toy_msg \<lparr>Tau = 6, Ctlist = [6]\<rparr> = Inl PanicIndexOutOfRange"
  by (simp add: VerifySignature_def VerifySignature_run_def Let_def toy_ring1_def
      verify_loop.simps verify_step_def)

lemma VerifySignature_run_prefix:
  assumes "2 * length (PubKeys r) \<le> length (Ctlist sg)"
  shows "\<exists>cs h.
     VerifySignature_run c r m sg
       = Inr \<lparr> ctlist = map (\<lambda>v. v mod Order c) (take (2 * length (PubKeys r)) (Ctlist sg))
                         @ drop (2 * length (PubKeys r)) (Ctlist sg),
               csum = cs, hashAcc = h \<rparr> \<and>
     VerifySignature_run c r m (sg\<lparr>Ctlist := take (2 * length (PubKeys r)) (Ctlist sg)\<rparr>)
       = Inr \<lparr> ctlist = map (\<lambda>v. v mod Order c) (take (2 * length (PubKeys r)) (Ctlist sg)),
               csum = cs, hashAcc = h \<rparr>"
proof -
  define n where "n = length (PubKeys r)"
  define L where "L = Ctlist sg"
  have a: "2 * n \<le> length L" using assms by (simp add: n_def L_def)
  then have b: "2 * n \<le> length (take (2 * n) L)" by simp
  have t: "take (2 * n) L = take (2 * n) (take (2 * n) L)" by simp
  from verify_loop_prefix [OF a b t]
  show ?thesis
    unfolding VerifySignature_run_def Let_def n_def [symmetric] L_def [symmetric]
    by (simp add: L_def [symmetric])
qed

lemma VerifySignature_short_panics:
  assumes "length (Ctlist sg) < 2 * length (PubKeys r)"
  shows "VerifySignature c r m sg = Inl PanicIndexOutOfRange"
proof -
  from assms have "0 < length (PubKeys r)" by (cases "PubKeys r") simp_all
  then show ?thesis
    unfolding VerifySignature_def VerifySignature_run_def Let_def
    using assms by (simp add: verify_loop_short)
qed

text \<open>
  A ring of one key: a \<open>ctlist\<close> of one entry makes the verifier panic, and a \<open>ctlist\<close> of
  three entries whose first two verify is accepted.
\<close>

theorem VerifySignature_length_counterexample:
  "length [6::int] \<noteq> 2 * length (PubKeys toy_ring1) \<and>
   VerifySignature toy toy_ring1 toy_msg \<lparr>Tau = 6, Ctlist = [6]\<rparr> = Inl PanicIndexOutOfRange \<and>
   length [6, 0, 100::int] \<noteq> 2 * length (PubKeys toy_ring1) \<and>
   VerifySignature toy toy_ring1 toy_msg \<lparr>Tau = 6, Ctlist = [6, 0, 100]\<rparr> = Inr True"
  using toy_long_accept toy_short_panic by (simp add: toy_ring1_def)

lemma drop_two:
  "2 * j + 1 < length xs \<Longrightarrow>
   drop (2 * j) xs = xs ! (2 * j) # xs ! Suc (2 * j) # drop (2 * Suc j) xs"
  by (simp add: Cons_nth_drop_Suc)

lemma verify_loop_chain:
  "n = length (PubKeys r) \<Longrightarrow> j \<le> n \<Longrightarrow> 2 * n \<le> length (ctlist st) \<Longrightarrow>
   \<exists>st'. verify_loop c r hashp tau n j st = Inr st' \<and>
     (csum st', hashAcc st') =
       spec_verify_chain c hashp tau (drop j (PubKeys r)) (drop (2 * j) (ctlist st))
         (csum st, hashAcc st)"
proof (induction c r hashp tau n j st rule: verify_loop.induct)
  case (1 c r hashp tau n j st)
  show ?case
  proof (cases "j < n")
    case False
    then have "verify_loop c r hashp tau n j st = Inr st"
      by (subst verify_loop.simps) simp
    moreover from False "1.prems" have "drop j (PubKeys r) = []" by simp
    ultimately show ?thesis by simp
  next
    case True
    with "1.prems" have len: "2 * j + 1 < length (ctlist st)" by simp
    define N where "N = Order c"
    define cj where "cj = ctlist st ! (2 * j) mod N"
    define tj where "tj = ctlist st ! Suc (2 * j) mod N"
    define st1 where "st1 = \<lparr> ctlist = (ctlist st)[2 * j := cj, Suc (2 * j) := tj],
        csum = (csum st + cj) mod N,
        hashAcc = Sum256 c (hashAcc st @
          Marshal c (Add c (ScalarBaseMult c tj) (ScalarMult c (PubKeys r ! j) cj)) @
          Marshal c (Add c (ScalarMult c hashp tj) (ScalarMult c tau cj))) \<rparr>"
    have step: "verify_step c r hashp tau j st = Inr st1"
      using len by (simp add: verify_step_def Let_def st1_def cj_def tj_def N_def)
    have l1: "2 * n \<le> length (ctlist st1)" using "1.prems" by (simp add: st1_def)
    from True have sj: "Suc j \<le> n" by simp
    from "1.IH" [OF True step "1.prems"(1) sj l1] obtain st' where
      r: "verify_loop c r hashp tau n (Suc j) st1 = Inr st'"
      and ch: "(csum st', hashAcc st') =
         spec_verify_chain c hashp tau (drop (Suc j) (PubKeys r)) (drop (2 * Suc j) (ctlist st1))
           (csum st1, hashAcc st1)"
      by blast
    have d1: "drop (2 * Suc j) (ctlist st1) = drop (2 * Suc j) (ctlist st)"
      by (simp add: st1_def)
    have dp: "drop j (PubKeys r) = PubKeys r ! j # drop (Suc j) (PubKeys r)"
      using True "1.prems"(1) by (simp add: Cons_nth_drop_Suc)
    have "spec_verify_chain c hashp tau (drop j (PubKeys r)) (drop (2 * j) (ctlist st))
           (csum st, hashAcc st)
        = spec_verify_chain c hashp tau (drop (Suc j) (PubKeys r)) (drop (2 * Suc j) (ctlist st))
           (csum st1, hashAcc st1)"
      unfolding dp drop_two [OF len]
      by (simp add: Let_def st1_def cj_def tj_def N_def)
    with ch d1 have "(csum st', hashAcc st') =
       spec_verify_chain c hashp tau (drop j (PubKeys r)) (drop (2 * j) (ctlist st))
         (csum st, hashAcc st)"
      by simp
    moreover have "verify_loop c r hashp tau n j st = Inr st'"
      using True step r by (simp add: verify_loop.simps [of _ _ _ _ n j])
    ultimately show ?thesis by blast
  qed
qed

lemma spec_verify_chain_reduced:
  "cs mod Order c = cs \<Longrightarrow>
   fst (spec_verify_chain c Hp tau pks ct (cs, h)) mod Order c
     = fst (spec_verify_chain c Hp tau pks ct (cs, h))"
  by (induction c Hp tau pks ct "(cs, h)" arbitrary: cs h rule: spec_verify_chain.induct)
    (simp_all add: Let_def)

lemma spec_verify_chain_take:
  "spec_verify_chain c Hp tau pks (take (2 * length pks) ct) acc
     = spec_verify_chain c Hp tau pks ct acc"
proof (induction pks arbitrary: ct acc)
  case Nil
  show ?case by simp
next
  case (Cons pk pks)
  obtain cs h where acc: "acc = (cs, h)" by (cases acc)
  show ?case
  proof (cases ct)
    case Nil
    then show ?thesis by simp
  next
    case ct1: (Cons cj ct1)
    show ?thesis
    proof (cases ct1)
      case Nil
      with ct1 show ?thesis by simp
    next
      case (Cons tj ct2)
      with ct1 Cons.IH show ?thesis by (simp add: acc Let_def)
    qed
  qed
qed

lemma VerifySignature_spec:
  assumes "2 * length (PubKeys r) \<le> length (Ctlist sg)"
  shows "VerifySignature c r m sg =
         Inr (spec_verify c (PubKeys r) (messageHash m) (Tau sg) (Ctlist sg))"
proof -
  define hashp where "hashp = NewCurvePointFromHash c (messageHash m)"
  define acc0 where "acc0 = Sum256 c (take 32 (Marshal c hashp) @ Marshal c (Tau sg))"
  define st0 where "st0 = \<lparr> ctlist = Ctlist sg, csum = 0, hashAcc = acc0 \<rparr>"
  define fin where "fin = spec_verify_chain c hashp (Tau sg) (PubKeys r) (Ctlist sg) (0, acc0)"
  have "2 * length (PubKeys r) \<le> length (ctlist st0)" using assms by (simp add: st0_def)
  from verify_loop_chain [OF refl _ this, of 0 c hashp "Tau sg"] obtain st' where
    run: "verify_loop c r hashp (Tau sg) (length (PubKeys r)) 0 st0 = Inr st'"
    and ch: "(csum st', hashAcc st') = fin"
    by (auto simp: st0_def fin_def)
  have "fst fin mod Order c = fst fin"
    unfolding fin_def by (rule spec_verify_chain_reduced) simp
  with ch have red: "csum st' mod Order c = csum st'" by (metis fst_conv)
  from ch have f: "fst fin = csum st'" "snd fin = hashAcc st'" by (metis fst_conv, metis snd_conv)
  have "VerifySignature c r m sg = Inr (csum st' mod Order c = SetBytes (hashAcc st') mod Order c)"
    unfolding VerifySignature_def VerifySignature_run_def Let_def
    using run by (simp add: hashp_def acc0_def st0_def)
  also have "\<dots> = Inr (fst fin = SetBytes (snd fin) mod Order c)"
    by (simp only: red f)
  also have "\<dots> = Inr (spec_verify c (PubKeys r) (messageHash m) (Tau sg) (Ctlist sg))"
    by (simp add: spec_verify_def Let_def fin_def hashp_def acc0_def)
  finally show ?thesis .
qed

lemma spec_verify_take:
  "spec_verify c pks m tau (take (2 * length pks) ct) = spec_verify c pks m tau ct"
  by (simp add: spec_verify_def spec_verify_chain_take)

lemma toy_long_reject:
  "VerifySignature toy toy_ring1 toy_msg \<lparr>Tau = 6, Ctlist = [5, 0, 100]\<rparr> = Inr False"
  by (simp add: VerifySignature_def VerifySignature_run_def Let_def toy_msg_hash toy_ring1_def
      verify_loop.simps verify_step_def toy_simps SetBytes_toy_acc take32_toy_marshal
      toy_sum_first toy_sum_next)

text \<open>
  C4, as the code has it. \<open>VerifySignature\<close> does not compare the length of \<open>ctlist\<close> with
  \<open>2n\<close>. Whenever \<open>ctlist\<close> has at least \<open>2n\<close> entries the call does not panic: it returns
  \<open>true\<close> when the first \<open>2n\<close> entries pass the check of section 4.9 of the specification
  and \<open>false\<close> on a cryptographic mismatch. The entries past the first \<open>2n\<close> play no part, so
  a list that is too long is not rejected for its length.
\<close>

theorem VerifySignature_no_length_check:
  "2 * length (PubKeys r) \<le> length (Ctlist sg) \<longrightarrow>
     VerifySignature c r m sg =
       Inr (spec_verify c (PubKeys r) (messageHash m) (Tau sg) (Ctlist sg)) \<and>
     (spec_verify c (PubKeys r) (messageHash m) (Tau sg) (Ctlist sg) \<longrightarrow>
        VerifySignature c r m sg = Inr True) \<and>
     (\<not> spec_verify c (PubKeys r) (messageHash m) (Tau sg) (Ctlist sg) \<longrightarrow>
        VerifySignature c r m sg = Inr False) \<and>
     spec_verify c (PubKeys r) (messageHash m) (Tau sg) (Ctlist sg) =
       spec_verify c (PubKeys r) (messageHash m) (Tau sg)
         (take (2 * length (PubKeys r)) (Ctlist sg)) \<and>
     (\<exists>b. VerifySignature c r m sg = Inr b) \<and>
     VerifySignature c r m sg =
       VerifySignature c r m (sg\<lparr>Ctlist := take (2 * length (PubKeys r)) (Ctlist sg)\<rparr>)"
proof
  assume a: "2 * length (PubKeys r) \<le> length (Ctlist sg)"
  have v: "VerifySignature c r m sg =
       Inr (spec_verify c (PubKeys r) (messageHash m) (Tau sg) (Ctlist sg))"
    by (rule VerifySignature_spec [OF a])
  have "2 * length (PubKeys r)
        \<le> length (Ctlist (sg\<lparr>Ctlist := take (2 * length (PubKeys r)) (Ctlist sg)\<rparr>))"
    using a by simp
  from VerifySignature_spec [OF this, of c m]
  have t: "VerifySignature c r m (sg\<lparr>Ctlist := take (2 * length (PubKeys r)) (Ctlist sg)\<rparr>) =
       Inr (spec_verify c (PubKeys r) (messageHash m) (Tau sg) (Ctlist sg))"
    by (simp add: spec_verify_take)
  show "VerifySignature c r m sg =
       Inr (spec_verify c (PubKeys r) (messageHash m) (Tau sg) (Ctlist sg)) \<and>
     (spec_verify c (PubKeys r) (messageHash m) (Tau sg) (Ctlist sg) \<longrightarrow>
        VerifySignature c r m sg = Inr True) \<and>
     (\<not> spec_verify c (PubKeys r) (messageHash m) (Tau sg) (Ctlist sg) \<longrightarrow>
        VerifySignature c r m sg = Inr False) \<and>
     spec_verify c (PubKeys r) (messageHash m) (Tau sg) (Ctlist sg) =
       spec_verify c (PubKeys r) (messageHash m) (Tau sg)
         (take (2 * length (PubKeys r)) (Ctlist sg)) \<and>
     (\<exists>b. VerifySignature c r m sg = Inr b) \<and>
     VerifySignature c r m sg =
       VerifySignature c r m (sg\<lparr>Ctlist := take (2 * length (PubKeys r)) (Ctlist sg)\<rparr>)"
    using v t by (simp add: spec_verify_take)
qed

theorem VerifySignature_no_length_check_witness:
  "2 * length (PubKeys toy_ring1) \<le> length (Ctlist \<lparr>Tau = 6::int, Ctlist = [6, 0, 100]\<rparr>) \<and>
   2 * length (PubKeys toy_ring1) \<le> length (Ctlist \<lparr>Tau = 6::int, Ctlist = [5, 0, 100]\<rparr>) \<and>
   VerifySignature toy toy_ring1 toy_msg \<lparr>Tau = 6, Ctlist = [6, 0]\<rparr> = Inr True \<and>
   spec_verify toy (PubKeys toy_ring1) (messageHash toy_msg) 6 [6, 0, 100] \<and>
   VerifySignature toy toy_ring1 toy_msg \<lparr>Tau = 6, Ctlist = [5, 0]\<rparr> = Inr False \<and>
   \<not> spec_verify toy (PubKeys toy_ring1) (messageHash toy_msg) 6 [5, 0, 100]"
proof -
  have h: "2 * length (PubKeys toy_ring1) \<le> length (Ctlist \<lparr>Tau = 6::int, Ctlist = [6, 0, 100]\<rparr>)"
    "2 * length (PubKeys toy_ring1) \<le> length (Ctlist \<lparr>Tau = 6::int, Ctlist = [5, 0, 100]\<rparr>)"
    by (simp_all add: toy_ring1_def)
  note acc = VerifySignature_no_length_check [where r = toy_ring1
      and sg = "\<lparr>Tau = 6::int, Ctlist = [6, 0, 100]\<rparr>" and c = toy and m = toy_msg]
  note rej = VerifySignature_no_length_check [where r = toy_ring1
      and sg = "\<lparr>Tau = 6::int, Ctlist = [5, 0, 100]\<rparr>" and c = toy and m = toy_msg]
  have tk: "take (2 * length (PubKeys toy_ring1)) [6, 0, 100::int] = [6, 0]"
    "take (2 * length (PubKeys toy_ring1)) [5, 0, 100::int] = [5, 0]"
    by (simp_all add: toy_ring1_def)
  from acc h(1) toy_long_accept
  have a1: "spec_verify toy (PubKeys toy_ring1) (messageHash toy_msg) 6 [6, 0, 100]"
    and a2: "VerifySignature toy toy_ring1 toy_msg \<lparr>Tau = 6, Ctlist = [6, 0]\<rparr> = Inr True"
    by (simp_all add: tk)
  from rej h(2) toy_long_reject
  have r1: "\<not> spec_verify toy (PubKeys toy_ring1) (messageHash toy_msg) 6 [5, 0, 100]"
    and r2: "VerifySignature toy toy_ring1 toy_msg \<lparr>Tau = 6, Ctlist = [5, 0]\<rparr> = Inr False"
    by (simp_all add: tk)
  from h a1 a2 r1 r2 show ?thesis by blast
qed

section \<open>Values written back through pointers\<close>

lemma Signature_fst: "fst (Signature c r pk m signer rnd) = pk mod Order c"
  by (simp add: Signature_def Let_def)

lemma mod_fixed_iff: "0 < (N::int) \<Longrightarrow> v mod N = v \<longleftrightarrow> 0 \<le> v \<and> v < N"
proof
  assume "v mod N = v"
  moreover assume "0 < N"
  ultimately show "0 \<le> v \<and> v < N"
    using pos_mod_sign [of N v] pos_mod_bound [of N v] by simp
next
  assume "0 \<le> v \<and> v < N"
  then show "v mod N = v" by simp
qed

lemma map_fixed_iff: "map f xs = xs \<longleftrightarrow> (\<forall>v\<in>set xs. f v = v)"
  by (induction xs) auto

lemma reduce_prefix_fixed_iff:
  "map f (take n L) @ drop n L = L \<longleftrightarrow> (\<forall>v\<in>set (take n L). f v = v)"
proof -
  have "(map f (take n L) @ drop n L = L)
        = (map f (take n L) @ drop n L = take n L @ drop n L)"
    by (simp only: append_take_drop_id)
  also have "\<dots> = (map f (take n L) = take n L)"
    by (rule append_same_eq)
  finally show ?thesis by (simp only: map_fixed_iff)
qed

lemma verify_step_ptr_Inr:
  assumes "2 * j + 1 < length ct"
  shows "verify_step_ptr c r hashp tau ct j st =
     Inr \<lparr> mem = (\<lambda>a. if a = ct ! (2 * j) \<or> a = ct ! Suc (2 * j)
                       then mem st a mod Order c else mem st a),
           psum = (psum st + mem st (ct ! (2 * j)) mod Order c) mod Order c,
           pacc = Sum256 c (pacc st @
             Marshal c (Add c (ScalarBaseMult c (mem st (ct ! Suc (2 * j)) mod Order c))
                          (ScalarMult c (PubKeys r ! j) (mem st (ct ! (2 * j)) mod Order c))) @
             Marshal c (Add c (ScalarMult c hashp (mem st (ct ! Suc (2 * j)) mod Order c))
                          (ScalarMult c tau (mem st (ct ! (2 * j)) mod Order c)))) \<rparr>"
proof -
  define N where "N = Order c"
  define cj where "cj = ct ! (2 * j)"
  define tj where "tj = ct ! Suc (2 * j)"
  define m1 where "m1 = (mem st)(cj := mem st cj mod N)"
  define m2 where "m2 = m1(tj := m1 tj mod N)"
  have m2: "m2 = (\<lambda>a. if a = cj \<or> a = tj then mem st a mod N else mem st a)"
    by (auto simp: m2_def m1_def fun_eq_iff)
  have v: "m2 cj = mem st cj mod N" "m2 tj = mem st tj mod N"
    by (simp_all add: m2)
  have "verify_step_ptr c r hashp tau ct j st =
     Inr \<lparr> mem = m2, psum = (psum st + m2 cj) mod N,
           pacc = Sum256 c (pacc st @
             Marshal c (Add c (ScalarBaseMult c (m2 tj)) (ScalarMult c (PubKeys r ! j) (m2 cj))) @
             Marshal c (Add c (ScalarMult c hashp (m2 tj)) (ScalarMult c tau (m2 cj)))) \<rparr>"
    using assms
    by (simp add: verify_step_ptr_def Let_def m2_def m1_def cj_def tj_def N_def)
  then show ?thesis
    unfolding v unfolding m2 cj_def tj_def N_def .
qed

lemma verify_loop_ptr_chain:
  "n = length (PubKeys r) \<Longrightarrow> j \<le> n \<Longrightarrow> 2 * n \<le> length ct \<Longrightarrow>
   \<forall>a. mem st a mod Order c = s0 a mod Order c \<Longrightarrow>
   \<exists>st'. verify_loop_ptr c r hashp tau ct n j st = Inr st' \<and>
     (psum st', pacc st') =
       spec_verify_chain c hashp tau (drop j (PubKeys r)) (drop (2 * j) (map s0 ct))
         (psum st, pacc st) \<and>
     (\<forall>a. mem st' a = (if a \<in> set (drop (2 * j) (take (2 * n) ct))
                        then mem st a mod Order c else mem st a))"
proof (induction c r hashp tau ct n j st rule: verify_loop_ptr.induct)
  case (1 c r hashp tau ct n j st)
  show ?case
  proof (cases "j < n")
    case False
    then have "verify_loop_ptr c r hashp tau ct n j st = Inr st"
      by (subst verify_loop_ptr.simps) simp
    moreover from False "1.prems" have "drop j (PubKeys r) = []" by simp
    moreover from False have "drop (2 * j) (take (2 * n) ct) = []" by simp
    ultimately show ?thesis by simp
  next
    case True
    with "1.prems" have len: "2 * j + 1 < length ct" by simp
    define N where "N = Order c"
    define cj where "cj = ct ! (2 * j)"
    define tj where "tj = ct ! Suc (2 * j)"
    define st1 where "st1 = \<lparr> mem = (\<lambda>a. if a = cj \<or> a = tj then mem st a mod N else mem st a),
           psum = (psum st + mem st cj mod N) mod N,
           pacc = Sum256 c (pacc st @
             Marshal c (Add c (ScalarBaseMult c (mem st tj mod N))
                          (ScalarMult c (PubKeys r ! j) (mem st cj mod N))) @
             Marshal c (Add c (ScalarMult c hashp (mem st tj mod N))
                          (ScalarMult c tau (mem st cj mod N)))) \<rparr>"
    have step: "verify_step_ptr c r hashp tau ct j st = Inr st1"
      unfolding st1_def cj_def tj_def N_def by (rule verify_step_ptr_Inr [OF len])
    have inv1: "\<forall>a. mem st1 a mod Order c = s0 a mod Order c"
      using "1.prems"(4) by (simp add: st1_def N_def)
    from True have sj: "Suc j \<le> n" by simp
    from "1.IH" [OF True step "1.prems"(1) sj "1.prems"(3) inv1] obtain st' where
      r: "verify_loop_ptr c r hashp tau ct n (Suc j) st1 = Inr st'"
      and ch: "(psum st', pacc st') =
         spec_verify_chain c hashp tau (drop (Suc j) (PubKeys r)) (drop (2 * Suc j) (map s0 ct))
           (psum st1, pacc st1)"
      and eff: "\<forall>a. mem st' a = (if a \<in> set (drop (2 * Suc j) (take (2 * n) ct))
                        then mem st1 a mod Order c else mem st1 a)"
      by blast
    have dp: "drop j (PubKeys r) = PubKeys r ! j # drop (Suc j) (PubKeys r)"
      using True "1.prems"(1) by (simp add: Cons_nth_drop_Suc)
    have dm: "drop (2 * j) (map s0 ct) = s0 cj # s0 tj # drop (2 * Suc j) (map s0 ct)"
      using drop_two [of j "map s0 ct"] len by (simp add: cj_def tj_def)
    have rd: "s0 cj mod N = mem st cj mod N" "s0 tj mod N = mem st tj mod N"
      using "1.prems"(4) by (simp_all add: N_def)
    have "spec_verify_chain c hashp tau (drop j (PubKeys r)) (drop (2 * j) (map s0 ct))
           (psum st, pacc st)
        = spec_verify_chain c hashp tau (drop (Suc j) (PubKeys r)) (drop (2 * Suc j) (map s0 ct))
           (psum st1, pacc st1)"
      unfolding dp dm
      by (simp add: Let_def st1_def N_def [symmetric] rd)
    with ch have ch': "(psum st', pacc st') =
       spec_verify_chain c hashp tau (drop j (PubKeys r)) (drop (2 * j) (map s0 ct))
         (psum st, pacc st)"
      by simp
    have "2 * j + 1 < length (take (2 * n) ct)" using True "1.prems"(3) by simp
    from drop_two [OF this]
    have dt: "drop (2 * j) (take (2 * n) ct) = cj # tj # drop (2 * Suc j) (take (2 * n) ct)"
      using True by (simp add: cj_def tj_def)
    have eff': "\<forall>a. mem st' a = (if a \<in> set (drop (2 * j) (take (2 * n) ct))
                        then mem st a mod Order c else mem st a)"
      unfolding dt using eff by (auto simp: st1_def N_def)
    have "verify_loop_ptr c r hashp tau ct n j st = Inr st'"
      using True step r by (simp add: verify_loop_ptr.simps [of _ _ _ _ _ n j])
    with ch' eff' show ?thesis by blast
  qed
qed

lemma VerifySignature_ptr_effect:
  assumes "2 * length (PubKeys r) \<le> length ct"
  shows "VerifySignature_ptr c r m tau ct s =
     Inr (\<lambda>a. if a \<in> set (take (2 * length (PubKeys r)) ct) then s a mod Order c else s a,
          spec_verify c (PubKeys r) (messageHash m) tau (map s ct))"
proof -
  define hashp where "hashp = NewCurvePointFromHash c (messageHash m)"
  define acc0 where "acc0 = Sum256 c (take 32 (Marshal c hashp) @ Marshal c tau)"
  define st0 where "st0 = \<lparr> mem = s, psum = 0, pacc = acc0 \<rparr>"
  define fin where "fin = spec_verify_chain c hashp tau (PubKeys r) (map s ct) (0, acc0)"
  have inv: "\<forall>a. mem st0 a mod Order c = s a mod Order c" by (simp add: st0_def)
  from verify_loop_ptr_chain [OF refl _ assms inv, of 0 hashp tau] obtain st' where
    run: "verify_loop_ptr c r hashp tau ct (length (PubKeys r)) 0 st0 = Inr st'"
    and ch: "(psum st', pacc st') = fin"
    and eff: "\<forall>a. mem st' a = (if a \<in> set (take (2 * length (PubKeys r)) ct)
                        then s a mod Order c else s a)"
    by (auto simp: st0_def fin_def)
  have "fst fin mod Order c = fst fin"
    unfolding fin_def by (rule spec_verify_chain_reduced) simp
  with ch have red: "psum st' mod Order c = psum st'" by (metis fst_conv)
  from ch have f: "fst fin = psum st'" "snd fin = pacc st'" by (metis fst_conv, metis snd_conv)
  from eff have m: "mem st' = (\<lambda>a. if a \<in> set (take (2 * length (PubKeys r)) ct)
                        then s a mod Order c else s a)"
    by (simp add: fun_eq_iff)
  have "VerifySignature_ptr c r m tau ct s =
     Inr (mem st', psum st' mod Order c = SetBytes (pacc st') mod Order c)"
    unfolding VerifySignature_ptr_def Let_def
    using run by (simp add: hashp_def acc0_def st0_def)
  also have "\<dots> = Inr (mem st', fst fin = SetBytes (snd fin) mod Order c)"
    by (simp only: red f)
  also have "\<dots> = Inr (mem st', spec_verify c (PubKeys r) (messageHash m) tau (map s ct))"
    by (simp add: spec_verify_def Let_def fin_def hashp_def acc0_def)
  finally show ?thesis unfolding m .
qed

lemma toy_wide_accept:
  "VerifySignature toy toy_ring1 toy_msg \<lparr>Tau = 6, Ctlist = [13, 7]\<rparr> = Inr True"
  by (simp add: VerifySignature_def VerifySignature_run_def Let_def toy_msg_hash toy_ring1_def
      verify_loop.simps verify_step_def toy_simps SetBytes_toy_acc take32_toy_marshal
      toy_sum_first toy_sum_next)

text \<open>
  C5, as the code has it. Both functions reduce scalars in place. \<open>Signature\<close> stores
  \<open>pk mod N\<close> in the object that its secret-key argument points to, which is the old value
  exactly when \<open>0 \<le> pk < N\<close>, and changes no other scalar that exists before the call; a
  private key of the ring is overwritten when it is that object. \<open>VerifySignature\<close>, on a
  signature with at least \<open>2n\<close> entries, stores in each object among the first \<open>2n\<close> entries
  of \<open>ctlist\<close> its residue modulo \<open>N\<close> and changes no other scalar, so the private keys of
  the ring keep their values when none of them is one of those objects, and the entries
  keep theirs exactly when the first \<open>2n\<close> lie in \<open>[0, N)\<close>; the boolean it returns is the one
  computed from the values of the entries.
\<close>

theorem Signature_Verify_write_back:
  "fst (Signature c r pk m signer rnd) = pk mod Order c \<and>
   (0 < Order c \<longrightarrow> (fst (Signature c r pk m signer rnd) = pk \<longleftrightarrow> 0 \<le> pk \<and> pk < Order c)) \<and>
   Signature_ptr c r s p m signer rnd =
     (s(p := s p mod Order c), snd (Signature c r (s p) m signer rnd)) \<and>
   map (fst (Signature_ptr c r s p m signer rnd)) privs =
     map (\<lambda>a. if a = p then s a mod Order c else s a) privs \<and>
   (2 * length (PubKeys r) \<le> length ct \<longrightarrow>
      VerifySignature_ptr c r m tau ct s =
        Inr (\<lambda>a. if a \<in> set (take (2 * length (PubKeys r)) ct) then s a mod Order c else s a,
             spec_verify c (PubKeys r) (messageHash m) tau (map s ct)) \<and>
      map_sum id snd (VerifySignature_ptr c r m tau ct s) =
        VerifySignature c r m \<lparr>Tau = tau, Ctlist = map s ct\<rparr> \<and>
      (\<forall>s' b. VerifySignature_ptr c r m tau ct s = Inr (s', b) \<longrightarrow>
         map s' privs =
           map (\<lambda>a. if a \<in> set (take (2 * length (PubKeys r)) ct) then s a mod Order c else s a)
             privs \<and>
         (set privs \<inter> set (take (2 * length (PubKeys r)) ct) = {} \<longrightarrow>
            map s' privs = map s privs))) \<and>
   (2 * length (PubKeys r) \<le> length (Ctlist sg) \<longrightarrow>
      (\<exists>st. VerifySignature_run c r m sg = Inr st \<and>
         ctlist st = map (\<lambda>v. v mod Order c) (take (2 * length (PubKeys r)) (Ctlist sg))
                       @ drop (2 * length (PubKeys r)) (Ctlist sg) \<and>
         (0 < Order c \<longrightarrow>
            (ctlist st = Ctlist sg \<longleftrightarrow>
               (\<forall>v\<in>set (take (2 * length (PubKeys r)) (Ctlist sg)). 0 \<le> v \<and> v < Order c)))))"
proof (intro conjI impI allI)
  show "fst (Signature c r pk m signer rnd) = pk mod Order c" by (rule Signature_fst)
next
  assume "0 < Order c"
  then show "fst (Signature c r pk m signer rnd) = pk \<longleftrightarrow> 0 \<le> pk \<and> pk < Order c"
    by (simp add: Signature_fst mod_fixed_iff)
next
  show "Signature_ptr c r s p m signer rnd =
     (s(p := s p mod Order c), snd (Signature c r (s p) m signer rnd))"
    by (simp add: Signature_ptr_def Signature_fst)
next
  show "map (fst (Signature_ptr c r s p m signer rnd)) privs =
     map (\<lambda>a. if a = p then s a mod Order c else s a) privs"
    by (simp add: Signature_ptr_def Signature_fst)
next
  assume a: "2 * length (PubKeys r) \<le> length ct"
  show "VerifySignature_ptr c r m tau ct s =
        Inr (\<lambda>a. if a \<in> set (take (2 * length (PubKeys r)) ct) then s a mod Order c else s a,
             spec_verify c (PubKeys r) (messageHash m) tau (map s ct))"
    by (rule VerifySignature_ptr_effect [OF a])
next
  assume a: "2 * length (PubKeys r) \<le> length ct"
  then have "2 * length (PubKeys r) \<le> length (Ctlist \<lparr>Tau = tau, Ctlist = map s ct\<rparr>)"
    by simp
  from VerifySignature_spec [OF this, of c m]
  show "map_sum id snd (VerifySignature_ptr c r m tau ct s) =
        VerifySignature c r m \<lparr>Tau = tau, Ctlist = map s ct\<rparr>"
    by (simp add: VerifySignature_ptr_effect [OF a])
next
  fix s' b
  assume a: "2 * length (PubKeys r) \<le> length ct"
    and v: "VerifySignature_ptr c r m tau ct s = Inr (s', b)"
  from v show "map s' privs =
           map (\<lambda>a. if a \<in> set (take (2 * length (PubKeys r)) ct) then s a mod Order c else s a)
             privs"
    by (simp add: VerifySignature_ptr_effect [OF a])
next
  fix s' b
  assume a: "2 * length (PubKeys r) \<le> length ct"
    and v: "VerifySignature_ptr c r m tau ct s = Inr (s', b)"
    and d: "set privs \<inter> set (take (2 * length (PubKeys r)) ct) = {}"
  from v have "s' = (\<lambda>a. if a \<in> set (take (2 * length (PubKeys r)) ct) then s a mod Order c else s a)"
    by (simp add: VerifySignature_ptr_effect [OF a])
  with d show "map s' privs = map s privs" by auto
next
  assume a: "2 * length (PubKeys r) \<le> length (Ctlist sg)"
  from VerifySignature_run_prefix [OF a, of c m] obtain st where
    st: "VerifySignature_run c r m sg = Inr st"
    and ct: "ctlist st = map (\<lambda>v. v mod Order c) (take (2 * length (PubKeys r)) (Ctlist sg))
                       @ drop (2 * length (PubKeys r)) (Ctlist sg)"
    by fastforce
  have "0 < Order c \<longrightarrow> (ctlist st = Ctlist sg \<longleftrightarrow>
               (\<forall>v\<in>set (take (2 * length (PubKeys r)) (Ctlist sg)). 0 \<le> v \<and> v < Order c))"
    unfolding ct reduce_prefix_fixed_iff by (simp add: mod_fixed_iff)
  with st ct show "\<exists>st. VerifySignature_run c r m sg = Inr st \<and>
         ctlist st = map (\<lambda>v. v mod Order c) (take (2 * length (PubKeys r)) (Ctlist sg))
                       @ drop (2 * length (PubKeys r)) (Ctlist sg) \<and>
         (0 < Order c \<longrightarrow>
            (ctlist st = Ctlist sg \<longleftrightarrow>
               (\<forall>v\<in>set (take (2 * length (PubKeys r)) (Ctlist sg)). 0 \<le> v \<and> v < Order c)))"
    by blast
qed

theorem Signature_Verify_write_back_witness:
  "(0::int) < Order toy \<and>
   2 * length (PubKeys toy_ring1) \<le> length [0, 1::nat] \<and>
   set [2::nat] \<inter> set (take (2 * length (PubKeys toy_ring1)) [0, 1]) = {} \<and>
   2 * length (PubKeys toy_ring1) \<le> length (Ctlist \<lparr>Tau = 6::int, Ctlist = [13, 7]\<rparr>) \<and>
   fst (Signature toy toy_ring 12 toy_msg 1 toy_rnd) = 5 \<and>
   fst (Signature toy toy_ring 5 toy_msg 1 toy_rnd) = 5 \<and>
   map (fst (Signature_ptr toy toy_ring (\<lambda>a. 12) 2 toy_msg 1 toy_rnd)) [2] = [5] \<and>
   (\<exists>s'. VerifySignature_ptr toy toy_ring1 toy_msg 6 [0, 1] (\<lambda>a. if a = 0 then 13 else 7)
            = Inr (s', True) \<and>
         map s' [0, 1] = [6, 0] \<and> map s' [2] = [7]) \<and>
   (\<exists>st. VerifySignature_run toy toy_ring1 toy_msg \<lparr>Tau = 6, Ctlist = [13, 7]\<rparr> = Inr st \<and>
         ctlist st = [6, 0])"
proof -
  define s0 :: store where "s0 = (\<lambda>a. if a = 0 then 13 else 7)"
  have o: "(0::int) < Order toy" by (simp add: toy_simps)
  have l: "2 * length (PubKeys toy_ring1) \<le> length [0, 1::nat]"
    by (simp add: toy_ring1_def)
  have d: "set [2::nat] \<inter> set (take (2 * length (PubKeys toy_ring1)) [0, 1]) = {}"
    by (simp add: toy_ring1_def)
  have l': "2 * length (PubKeys toy_ring1) \<le> length (Ctlist \<lparr>Tau = 6::int, Ctlist = [13, 7]\<rparr>)"
    by (simp add: toy_ring1_def)
  note T1 = Signature_Verify_write_back [where c = toy and r = toy_ring and pk = 12
      and m = toy_msg and signer = 1 and rnd = toy_rnd and s = "\<lambda>a. 12" and p = 2
      and privs = "[2]" and ct = "[]" and tau = 6 and sg = "\<lparr>Tau = 6::int, Ctlist = []\<rparr>"]
  from T1 [THEN conjunct1] have a: "fst (Signature toy toy_ring 12 toy_msg 1 toy_rnd) = 5"
    by (simp add: toy_simps)
  from T1 [THEN conjunct2, THEN conjunct2, THEN conjunct2, THEN conjunct1]
  have c1: "map (fst (Signature_ptr toy toy_ring (\<lambda>a. 12) 2 toy_msg 1 toy_rnd)) [2] = [5]"
    by (simp add: toy_simps)
  note T2 = Signature_Verify_write_back [where c = toy and r = toy_ring and pk = 5
      and m = toy_msg and signer = 1 and rnd = toy_rnd and s = "\<lambda>a. 12" and p = 2
      and privs = "[2]" and ct = "[]" and tau = 6 and sg = "\<lparr>Tau = 6::int, Ctlist = []\<rparr>"]
  from T2 [THEN conjunct1] have b: "fst (Signature toy toy_ring 5 toy_msg 1 toy_rnd) = 5"
    by (simp add: toy_simps)
  note T3 = Signature_Verify_write_back [where c = toy and r = toy_ring1 and pk = 0
      and m = toy_msg and signer = 0 and rnd = toy_rnd and s = s0 and p = 0
      and privs = "[2]" and ct = "[0, 1]" and tau = 6
      and sg = "\<lparr>Tau = 6::int, Ctlist = [13, 7]\<rparr>"]
  define f where "f = (\<lambda>a. if a \<in> set (take (2 * length (PubKeys toy_ring1)) [0, 1::nat])
      then s0 a mod Order toy else s0 a)"
  define sv where "sv = spec_verify toy (PubKeys toy_ring1) (messageHash toy_msg) 6 (map s0 [0, 1])"
  note V = T3 [THEN conjunct2, THEN conjunct2, THEN conjunct2, THEN conjunct2, THEN conjunct1,
      THEN mp, OF l]
  from V [THEN conjunct1]
  have run: "VerifySignature_ptr toy toy_ring1 toy_msg 6 [0, 1] s0 = Inr (f, sv)"
    unfolding f_def sv_def .
  from V [THEN conjunct2, THEN conjunct1]
  have res: "map_sum id snd (VerifySignature_ptr toy toy_ring1 toy_msg 6 [0, 1] s0) =
        VerifySignature toy toy_ring1 toy_msg \<lparr>Tau = 6, Ctlist = map s0 [0, 1]\<rparr>" .
  have "map s0 [0, 1] = [13, 7]" by (simp add: s0_def)
  with res run toy_wide_accept have sv: "sv = True" by simp
  have f1: "map f [0, 1] = [6, 0]" and f2: "map f [2] = [7]"
    by (simp_all add: f_def s0_def toy_ring1_def toy_simps)
  from run sv f1 f2 have v: "\<exists>s'. VerifySignature_ptr toy toy_ring1 toy_msg 6 [0, 1] s0
            = Inr (s', True) \<and> map s' [0, 1] = [6, 0] \<and> map s' [2] = [7]"
    by (intro exI [of _ f]) simp
  from T3 [THEN conjunct2, THEN conjunct2, THEN conjunct2, THEN conjunct2, THEN conjunct2,
      THEN mp, OF l'] obtain st where
    st: "VerifySignature_run toy toy_ring1 toy_msg \<lparr>Tau = 6, Ctlist = [13, 7]\<rparr> = Inr st"
    and ct: "ctlist st = map (\<lambda>v. v mod Order toy)
         (take (2 * length (PubKeys toy_ring1)) (Ctlist \<lparr>Tau = 6::int, Ctlist = [13, 7]\<rparr>))
         @ drop (2 * length (PubKeys toy_ring1)) (Ctlist \<lparr>Tau = 6::int, Ctlist = [13, 7]\<rparr>)"
    by blast
  from ct have "ctlist st = [6, 0]" by (simp add: toy_ring1_def toy_simps)
  with st have w: "\<exists>st. VerifySignature_run toy toy_ring1 toy_msg \<lparr>Tau = 6, Ctlist = [13, 7]\<rparr> = Inr st \<and>
         ctlist st = [6, 0]"
    by blast
  from o l d l' a b c1 v w show ?thesis unfolding s0_def by (intro conjI)
qed

text \<open>
  The secret 12 is left as 5 by \<open>Signature\<close>, and the entries 13 and 7 are left as 6 and 0 by
  the verifier.
\<close>

theorem Signature_Verify_write_back_counterexample:
  "fst (Signature toy toy_ring 12 toy_msg 1 toy_rnd) \<noteq> 12 \<and>
   map_sum id ctlist (VerifySignature_run toy toy_ring1 toy_msg \<lparr>Tau = 6, Ctlist = [13, 7]\<rparr>)
     \<noteq> Inr [13, 7]"
proof -
  have "2 * length (PubKeys toy_ring1) \<le> length (Ctlist \<lparr>Tau = 6::int, Ctlist = [13, 7]\<rparr>)"
    by (simp add: toy_ring1_def)
  from VerifySignature_run_prefix [OF this, of toy toy_msg]
  have "map_sum id ctlist (VerifySignature_run toy toy_ring1 toy_msg \<lparr>Tau = 6, Ctlist = [13, 7]\<rparr>)
     = Inr [6, 0]"
    by (auto simp: toy_ring1_def toy_simps)
  then show ?thesis by (simp add: Signature_fst toy_simps)
qed

section \<open>Stealth key derivation\<close>

lemma isValidSecretKey_iff: "isValidSecretKey c secret \<longleftrightarrow> 1 \<le> secret \<and> secret < Order c"
  by (auto simp: isValidSecretKey_def)

lemma curve_base_add:
  assumes ok: "curve_ok c"
  shows "ScalarBaseMult c ((a + b) mod Order c) = Add c (ScalarBaseMult c a) (ScalarBaseMult c b)"
proof -
  from ok obtain G where G: "\<And>k. ScalarBaseMult c k = ScalarMult c G k"
    unfolding curve_ok_def by blast
  from ok have red: "\<And>P k. ScalarMult c P (k mod Order c) = ScalarMult c P k"
    and add: "\<And>P a b. Add c (ScalarMult c P a) (ScalarMult c P b) = ScalarMult c P (a + b)"
    unfolding curve_ok_def by blast+
  show ?thesis by (simp add: G red add)
qed

lemma toy_affine_digest_4: "SetBytes (Sum256 toy_affine [4]) = 4"
  by (simp add: toy_affine_simps toy_sum_def SetBytes_toy_acc)

lemma toy_affine_digest_3: "SetBytes (Sum256 toy_affine [1, 2]) = 3"
  by (simp add: toy_affine_simps toy_sum_def SetBytes_toy_acc)

text \<open>
  On a primitive whose on-curve test rejects the neutral element, the secret 3 and a byte
  string with digest 4 give the derived secret 0: \<open>StealthPrivDerive\<close> returns \<open>nil\<close> while
  \<open>StealthPubDerive\<close> returns the point \<open>[0]G\<close>.
\<close>

theorem Stealth_derivations_counterexample:
  "curve_ok toy_affine \<and> (1::int) \<le> 3 \<and> 3 < Order toy_affine \<and>
   StealthPrivDerive toy_affine 3 [4] = None \<and>
   StealthPubDerive toy_affine (ScalarBaseMult toy_affine 3) [4] = Some 0 \<and>
   map_option (derivePublicKey toy_affine) (StealthPrivDerive toy_affine 3 [4]) \<noteq>
     StealthPubDerive toy_affine (derivePublicKey toy_affine 3) [4]"
  using toy_affine_curve_ok toy_affine_digest_4
  by (simp add: StealthPrivDerive_def StealthPubDerive_def isValidSecretKey_def
      derivePublicKey_def Let_def toy_affine_simps)

text \<open>
  C2, as the code has it. For a curve primitive that satisfies the algebraic contract,
  every secret \<open>msk\<close> with \<open>1 \<le> msk < N\<close> and every byte string, with \<open>H\<close> the digest of the
  byte string and \<open>ssk = (msk + H) mod N\<close>: \<open>[ssk]G = [msk]G + [H]G\<close>;
  \<open>StealthPubDerive([msk]G, secret)\<close> returns that point when \<open>[msk]G\<close> passes the on-curve
  test and \<open>nil\<close> otherwise; \<open>StealthPrivDerive(msk, secret)\<close> returns \<open>ssk\<close> when \<open>[ssk]G\<close>
  passes the on-curve test and \<open>nil\<close> otherwise. So when both tests pass, the public key of
  the derived secret is exactly the derived public key; and where the primitive returns
  on-curve points for all valid scalars, both tests pass whenever \<open>ssk\<close> is not 0.
\<close>

theorem Stealth_derivations_agree:
  assumes ok: "curve_ok c"
    and lo: "1 \<le> msk" and hi: "msk < Order c"
  shows "ScalarBaseMult c ((msk + SetBytes (Sum256 c secret)) mod Order c) =
       Add c (ScalarBaseMult c msk) (ScalarBaseMult c (SetBytes (Sum256 c secret))) \<and>
     StealthPubDerive c (ScalarBaseMult c msk) secret =
       (if IsOnCurve c (ScalarBaseMult c msk)
        then Some (ScalarBaseMult c ((msk + SetBytes (Sum256 c secret)) mod Order c))
        else None) \<and>
     StealthPrivDerive c msk secret =
       (if IsOnCurve c (ScalarBaseMult c ((msk + SetBytes (Sum256 c secret)) mod Order c))
        then Some ((msk + SetBytes (Sum256 c secret)) mod Order c)
        else None) \<and>
     (IsOnCurve c (ScalarBaseMult c msk) \<and>
      IsOnCurve c (ScalarBaseMult c ((msk + SetBytes (Sum256 c secret)) mod Order c)) \<longrightarrow>
        StealthPrivDerive c msk secret = Some ((msk + SetBytes (Sum256 c secret)) mod Order c) \<and>
        map_option (derivePublicKey c) (StealthPrivDerive c msk secret) =
          StealthPubDerive c (derivePublicKey c msk) secret) \<and>
     ((\<forall>k. 1 \<le> k \<and> k < Order c \<longrightarrow> IsOnCurve c (ScalarBaseMult c k)) \<and>
      (msk + SetBytes (Sum256 c secret)) mod Order c \<noteq> 0 \<longrightarrow>
        StealthPrivDerive c msk secret = Some ((msk + SetBytes (Sum256 c secret)) mod Order c) \<and>
        map_option (derivePublicKey c) (StealthPrivDerive c msk secret) =
          StealthPubDerive c (derivePublicKey c msk) secret)"
proof -
  define X where "X = SetBytes (Sum256 c secret)"
  define ssk where "ssk = (msk + X) mod Order c"
  have v: "isValidSecretKey c msk" using lo hi by (simp add: isValidSecretKey_iff)
  have id: "ScalarBaseMult c ssk = Add c (ScalarBaseMult c msk) (ScalarBaseMult c X)"
    unfolding ssk_def by (rule curve_base_add [OF ok])
  have pub: "StealthPubDerive c (ScalarBaseMult c msk) secret =
       (if IsOnCurve c (ScalarBaseMult c msk) then Some (ScalarBaseMult c ssk) else None)"
    by (simp add: StealthPubDerive_def Let_def derivePublicKey_def id X_def)
  have priv: "StealthPrivDerive c msk secret =
       (if IsOnCurve c (ScalarBaseMult c ssk) then Some ssk else None)"
    using v by (simp add: StealthPrivDerive_def Let_def derivePublicKey_def ssk_def X_def)
  have both: "StealthPrivDerive c msk secret = Some ssk \<and>
        map_option (derivePublicKey c) (StealthPrivDerive c msk secret) =
          StealthPubDerive c (derivePublicKey c msk) secret"
    if "IsOnCurve c (ScalarBaseMult c msk)" "IsOnCurve c (ScalarBaseMult c ssk)"
    using that pub priv by (simp add: derivePublicKey_def)
  have contract: "StealthPrivDerive c msk secret = Some ssk \<and>
        map_option (derivePublicKey c) (StealthPrivDerive c msk secret) =
          StealthPubDerive c (derivePublicKey c msk) secret"
    if on: "\<forall>k. 1 \<le> k \<and> k < Order c \<longrightarrow> IsOnCurve c (ScalarBaseMult c k)" and nz: "ssk \<noteq> 0"
  proof -
    from lo hi have N: "0 < Order c" by simp
    then have "0 \<le> ssk" "ssk < Order c" by (simp_all add: ssk_def)
    with nz have "1 \<le> ssk \<and> ssk < Order c" by simp
    with on have "IsOnCurve c (ScalarBaseMult c ssk)" by blast
    moreover from on lo hi have "IsOnCurve c (ScalarBaseMult c msk)" by blast
    ultimately show ?thesis by (rule both [rotated])
  qed
  from id pub priv both contract show ?thesis
    unfolding ssk_def X_def by blast
qed

theorem Stealth_derivations_agree_witness:
  "curve_ok toy_affine \<and> (1::int) \<le> 3 \<and> 3 < Order toy_affine \<and>
   IsOnCurve toy_affine (ScalarBaseMult toy_affine 3) \<and>
   IsOnCurve toy_affine (ScalarBaseMult toy_affine 6) \<and>
   (3 + SetBytes (Sum256 toy_affine [1, 2])) mod Order toy_affine = 6 \<and>
   StealthPrivDerive toy_affine 3 [1, 2] = Some 6 \<and>
   map_option (derivePublicKey toy_affine) (StealthPrivDerive toy_affine 3 [1, 2]) =
     StealthPubDerive toy_affine (derivePublicKey toy_affine 3) [1, 2]"
proof -
  have h: "(1::int) \<le> 3" "3 < Order toy_affine"
    by (simp_all add: toy_affine_simps)
  have on: "\<forall>k. 1 \<le> k \<and> k < Order toy_affine \<longrightarrow> IsOnCurve toy_affine (ScalarBaseMult toy_affine k)"
    by (simp add: toy_affine_simps)
  have nz: "(3 + SetBytes (Sum256 toy_affine [1, 2])) mod Order toy_affine \<noteq> 0"
    using toy_affine_digest_3 by (simp add: toy_affine_simps)
  have v: "(3 + SetBytes (Sum256 toy_affine [1, 2])) mod Order toy_affine = 6"
    using toy_affine_digest_3 by (simp add: toy_affine_simps)
  from Stealth_derivations_agree [OF toy_affine_curve_ok h, of "[1, 2]"] on nz
  have p: "StealthPrivDerive toy_affine 3 [1, 2] =
          Some ((3 + SetBytes (Sum256 toy_affine [1, 2])) mod Order toy_affine)"
    and q: "map_option (derivePublicKey toy_affine) (StealthPrivDerive toy_affine 3 [1, 2]) =
          StealthPubDerive toy_affine (derivePublicKey toy_affine 3) [1, 2]"
    by blast+
  from p have p': "StealthPrivDerive toy_affine 3 [1, 2] = Some 6"
    by (simp only: v)
  have oc: "IsOnCurve toy_affine (ScalarBaseMult toy_affine 3)"
    "IsOnCurve toy_affine (ScalarBaseMult toy_affine 6)"
    by (simp_all add: toy_affine_simps)
  from toy_affine_curve_ok h oc v p' q show ?thesis by (intro conjI)
qed

section \<open>Stealth sessions\<close>

lemma session_loop_Suc:
  "i \<le> n \<Longrightarrow>
   session_loop c mySecret tp sh off (Suc n) i st =
     (case session_loop c mySecret tp sh off n i st of
        Inl e \<Rightarrow> Inl e
      | Inr st' \<Rightarrow> session_step c mySecret tp sh off n st')"
proof (induction c mySecret tp sh off n i st rule: session_loop.induct)
  case (1 c mySecret tp sh off n i st)
  show ?case
  proof (cases "i < n")
    case True
    with "1.IH" show ?thesis
      by (simp add: session_loop.simps [of _ _ _ _ _ _ i] split: sum.splits)
  next
    case False
    with "1.prems" have "i = n" by simp
    then show ?thesis
      by (simp add: session_loop.simps [of _ _ _ _ _ _ n]
          session_loop.simps [of _ _ _ _ _ _ "Suc n"] split: sum.splits)
  qed
qed

lemma session_loop_0: "session_loop c mySecret tp sh off 0 0 st = Inr st"
  by (simp add: session_loop.simps)

lemma session_step_Inr:
  assumes "session_step c mySecret tp sh off i (ts, ms) = Inr (ts', ms')"
  shows "\<exists>spk ssk. ts' = ts @ [\<lparr> Public = spk, Nonce = sint (off + of_nat i) \<rparr>] \<and>
     ms' = ms @ [\<lparr> Public = ScalarBaseMult c ssk, Nonce = sint (off + of_nat i), Private = ssk \<rparr>]"
  using assms
  by (auto simp: session_step_def Let_def derivePublicKey_def split: option.splits)

lemma session_step_Inl:
  assumes "session_step c mySecret tp sh off i st = Inl e"
  shows "e = CouldNotDeriveStealthPublicKey i \<and> \<not> IsOnCurve c tp \<or>
         e = PanicNilDereference \<and> IsOnCurve c tp \<and>
           StealthPrivDerive c mySecret (sh @ Bytes (sint (off + of_nat i))) = None"
  using assms
  by (auto simp: session_step_def Let_def StealthPubDerive_def split: option.splits if_splits)

lemma session_loop_invariant:
  "session_loop c mySecret tp sh off n 0 ([], []) = Inr (ts, ms) \<Longrightarrow>
   length ts = n \<and> length ms = n \<and>
   (\<forall>i<n. Nonce (ts ! i) = sint (off + of_nat i) \<and> Nonce (ms ! i) = sint (off + of_nat i) \<and>
           Public (ms ! i) = ScalarBaseMult c (Private (ms ! i)))"
proof (induction n arbitrary: ts ms)
  case 0
  then show ?case by (simp add: session_loop_0)
next
  case (Suc n)
  from Suc.prems obtain ts0 ms0 where
    l: "session_loop c mySecret tp sh off n 0 ([], []) = Inr (ts0, ms0)"
    and s: "session_step c mySecret tp sh off n (ts0, ms0) = Inr (ts, ms)"
    by (auto simp: session_loop_Suc split: sum.splits)
  from Suc.IH [OF l] have
    len: "length ts0 = n" "length ms0 = n"
    and inv: "\<forall>i<n. Nonce (ts0 ! i) = sint (off + of_nat i) \<and>
                    Nonce (ms0 ! i) = sint (off + of_nat i) \<and>
                    Public (ms0 ! i) = ScalarBaseMult c (Private (ms0 ! i))"
    by simp_all
  from session_step_Inr [OF s] obtain spk ssk where
    ts: "ts = ts0 @ [\<lparr> Public = spk, Nonce = sint (off + of_nat n) \<rparr>]"
    and ms: "ms = ms0 @ [\<lparr> Public = ScalarBaseMult c ssk, Nonce = sint (off + of_nat n), Private = ssk \<rparr>]"
    by blast
  show ?case
  proof (intro conjI allI impI)
    show "length ts = Suc n" "length ms = Suc n" using len by (simp_all add: ts ms)
  next
    fix i assume "i < Suc n"
    then consider "i < n" | "i = n" by linarith
    then show "Nonce (ts ! i) = sint (off + of_nat i)"
      using len inv by cases (simp_all add: ts nth_append)
  next
    fix i assume "i < Suc n"
    then consider "i < n" | "i = n" by linarith
    then show "Nonce (ms ! i) = sint (off + of_nat i)"
      using len inv by cases (simp_all add: ms nth_append)
  next
    fix i assume "i < Suc n"
    then consider "i < n" | "i = n" by linarith
    then show "Public (ms ! i) = ScalarBaseMult c (Private (ms ! i))"
      using len inv by cases (simp_all add: ms nth_append)
  qed
qed

lemma session_loop_Inl:
  "session_loop c mySecret tp sh off n i st = Inl e \<Longrightarrow>
   (\<exists>k. e = CouldNotDeriveStealthPublicKey k) \<and> \<not> IsOnCurve c tp \<or>
   e = PanicNilDereference \<and> IsOnCurve c tp"
proof (induction c mySecret tp sh off n i st rule: session_loop.induct)
  case (1 c mySecret tp sh off n i st)
  show ?case
  proof (cases "i < n")
    case True
    show ?thesis
    proof (cases "session_step c mySecret tp sh off i st")
      case (Inl e')
      with True "1.prems" have "e' = e"
        by (simp add: session_loop.simps [of _ _ _ _ _ n i])
      with session_step_Inl [OF Inl] show ?thesis by blast
    next
      case (Inr st')
      with True "1.prems" have "session_loop c mySecret tp sh off n (Suc i) st' = Inl e"
        by (simp add: session_loop.simps [of _ _ _ _ _ n i])
      with "1.IH" [OF True Inr] show ?thesis by blast
    qed
  next
    case False
    with "1.prems" show ?thesis
      by (simp add: session_loop.simps [of _ _ _ _ _ n i])
  qed
qed

lemma sint_add_nat:
  fixes off :: "64 word"
  assumes "0 \<le> sint off" "sint off + int i < 2 ^ 63"
  shows "sint (off + of_nat i) = sint off + int i"
proof -
  from assms have i: "int i < 2 ^ 63" by linarith
  have "sint (of_nat i :: 64 word) = signed_take_bit 63 (int i)"
    by (simp add: signed_of_nat)
  also have "\<dots> = int i"
    using i by (intro signed_take_bit_int_eq_self) simp_all
  finally have n: "sint (of_nat i :: 64 word) = int i" .
  have "sint (off + of_nat i) = signed_take_bit 63 (sint off + sint (of_nat i :: 64 word))"
    by (simp add: sint_word_ariths)
  also have "\<dots> = signed_take_bit 63 (sint off + int i)" by (simp only: n)
  also have "\<dots> = sint off + int i"
    using assms by (intro signed_take_bit_int_eq_self) simp_all
  finally show ?thesis .
qed

lemma NewStealthSession_Inr:
  assumes "NewStealthSession c mySecret theirPublic nonceOffset addressCount = Inr sess"
  shows "\<exists>tp. theirPublic = Some tp \<and> isValidSecretKey c mySecret \<and>
     session_loop c mySecret tp (deriveSharedSecret c mySecret tp) nonceOffset
        (nat (sint addressCount)) 0 ([], []) = Inr (TheirAddresses sess, MyAddresses sess)"
  using assms
  by (auto simp: NewStealthSession_def Let_def split: if_splits option.splits sum.splits)

lemma Bytes_0: "Bytes 0 = []"
  by (simp add: Bytes_def nat_bytes.simps [of 0])

lemma toy_sum_toy_acc: "toy_sum (toy_acc b) = toy_acc b"
  using toy_sum_secret [of b "[]"] by simp

lemma toy_affine_shared: "deriveSharedSecret toy_affine 3 6 = toy_acc 4"
  by (simp add: deriveSharedSecret_def toy_affine_simps take32_toy_marshal)

lemma toy_affine_priv_eval:
  "StealthPrivDerive toy_affine 3 (toy_acc 4 @ Bytes 0) = None"
  by (simp add: StealthPrivDerive_def isValidSecretKey_def derivePublicKey_def Let_def
      toy_affine_simps Bytes_0 toy_sum_toy_acc SetBytes_toy_acc)

lemma toy_affine_pub_eval:
  "StealthPubDerive toy_affine 6 (toy_acc 4 @ Bytes 0) = Some 3"
  by (simp add: StealthPubDerive_def derivePublicKey_def Let_def
      toy_affine_simps Bytes_0 toy_sum_toy_acc SetBytes_toy_acc)

lemma toy_affine_step_eval:
  "session_step toy_affine 3 6 (toy_acc 4) 0 0 ([], []) = Inl PanicNilDereference"
  using toy_affine_priv_eval toy_affine_pub_eval
  by (simp add: session_step_def Let_def)

lemma toy_affine_nil_eval:
  "NewStealthSession toy_affine 3 (Some 6) 0 1 = Inl PanicNilDereference"
proof -
  have n: "nat (sint (1::64 word)) = Suc 0" by simp
  have "session_loop toy_affine 3 6 (toy_acc 4) 0 (Suc 0) 0 ([], []) = Inl PanicNilDereference"
    by (simp add: session_loop_Suc session_loop_0 toy_affine_step_eval)
  then show ?thesis
    by (simp add: NewStealthSession_def isValidSecretKey_def Let_def toy_affine_shared n
        toy_affine_simps)
qed

lemma NewStealthSession_invalid_secret:
  "\<not> (1 \<le> mySecret \<and> mySecret < Order c) \<Longrightarrow>
   NewStealthSession c mySecret theirPublic nonceOffset addressCount = Inl (InvalidSecretKey mySecret)"
  by (simp add: NewStealthSession_def isValidSecretKey_iff)

lemma NewStealthSession_null_public:
  "1 \<le> mySecret \<Longrightarrow> mySecret < Order c \<Longrightarrow>
   NewStealthSession c mySecret None nonceOffset addressCount = Inl NullPublicKey"
  by (simp add: NewStealthSession_def isValidSecretKey_iff)

lemma NewStealthSession_public_off_curve:
  assumes "1 \<le> mySecret" "mySecret < Order c" "\<not> IsOnCurve c tp" "0 < sint addressCount"
  shows "NewStealthSession c mySecret (Some tp) nonceOffset addressCount =
         Inl (CouldNotDeriveStealthPublicKey 0)"
proof -
  from assms(4) have n: "0 < nat (sint addressCount)" by simp
  have "session_step c mySecret tp (deriveSharedSecret c mySecret tp) nonceOffset 0 ([], [])
        = Inl (CouldNotDeriveStealthPublicKey 0)"
    using assms(3) by (simp add: session_step_def Let_def StealthPubDerive_def)
  with n have "session_loop c mySecret tp (deriveSharedSecret c mySecret tp) nonceOffset
      (nat (sint addressCount)) 0 ([], []) = Inl (CouldNotDeriveStealthPublicKey 0)"
    by (simp add: session_loop.simps [of _ _ _ _ _ _ 0])
  with assms(1,2) show ?thesis
    by (simp add: NewStealthSession_def isValidSecretKey_iff Let_def)
qed

lemma NewStealthSession_private_failure_unreported:
  assumes "IsOnCurve c tp"
  shows "NewStealthSession c mySecret (Some tp) nonceOffset addressCount
         \<noteq> Inl (CouldNotDeriveStealthPublicKey i)"
proof
  assume a: "NewStealthSession c mySecret (Some tp) nonceOffset addressCount
         = Inl (CouldNotDeriveStealthPublicKey i)"
  then have "session_loop c mySecret tp (deriveSharedSecret c mySecret tp) nonceOffset
      (nat (sint addressCount)) 0 ([], []) = Inl (CouldNotDeriveStealthPublicKey i)"
    by (auto simp: NewStealthSession_def Let_def split: if_splits sum.splits)
  from session_loop_Inl [OF this] assms show False by simp
qed

text \<open>
  C6. \<open>NewStealthSession\<close> reports an invalid secret and a \<open>nil\<close> public key, and it
  reports a failing \<open>StealthPubDerive\<close> with the index (the three lemmas above). A failing
  \<open>StealthPrivDerive\<close> is not tested: in the instance below the secret 3 is valid, the
  public key 6 is on the curve, \<open>StealthPrivDerive\<close> returns \<open>nil\<close> at index 0 because the
  derived secret is 0 and \<open>[0]G\<close> fails the on-curve test, and the call ends in a
  nil-pointer panic instead of an error that names the index.
\<close>

theorem NewStealthSession_unchecked_private_key:
  "curve_ok toy_affine \<and> isValidSecretKey toy_affine 3 \<and> IsOnCurve toy_affine 6 \<and>
   StealthPrivDerive toy_affine 3 (deriveSharedSecret toy_affine 3 6 @ Bytes 0) = None \<and>
   NewStealthSession toy_affine 3 (Some 6) 0 1 = Inl PanicNilDereference"
  using toy_affine_priv_eval toy_affine_nil_eval toy_affine_curve_ok
  by (simp add: toy_affine_shared isValidSecretKey_def toy_affine_simps)

section \<open>The structure of a session\<close>

lemma session_step_total:
  assumes "isValidSecretKey c mySecret" "IsOnCurve c tp" "\<forall>k. IsOnCurve c (ScalarBaseMult c k)"
  shows "\<exists>st'. session_step c mySecret tp sh off i st = Inr st'"
  using assms
  by (simp add: session_step_def Let_def StealthPubDerive_def StealthPrivDerive_def
      derivePublicKey_def)

lemma session_loop_total:
  assumes "isValidSecretKey c mySecret" "IsOnCurve c tp" "\<forall>k. IsOnCurve c (ScalarBaseMult c k)"
  shows "\<exists>st'. session_loop c mySecret tp sh off n 0 st = Inr st'"
proof (induction n)
  case 0
  show ?case by (simp add: session_loop_0)
next
  case (Suc n)
  then obtain st1 where "session_loop c mySecret tp sh off n 0 st = Inr st1" by blast
  with session_step_total [OF assms, of sh off n st1] show ?case
    by (simp add: session_loop_Suc)
qed

lemma NewStealthSession_total:
  assumes "isValidSecretKey c mySecret" "IsOnCurve c tp" "\<forall>k. IsOnCurve c (ScalarBaseMult c k)"
  shows "\<exists>sess. NewStealthSession c mySecret (Some tp) nonceOffset addressCount = Inr sess"
proof -
  from session_loop_total [OF assms] obtain ts ms where
    "session_loop c mySecret tp (deriveSharedSecret c mySecret tp) nonceOffset
        (nat (sint addressCount)) 0 ([], []) = Inr (ts, ms)"
    by fastforce
  with assms(1) show ?thesis
    by (simp add: NewStealthSession_def Let_def)
qed

text \<open>
  C7, as the code has it. Every session that \<open>NewStealthSession\<close> returns has as many
  entries in \<open>TheirAddresses\<close> as in \<open>MyAddresses\<close>, namely \<open>addressCount\<close> (none when it is
  not positive); at each index \<open>i\<close> both nonce fields hold \<open>nonceOffset + i\<close> as the code's
  64-bit \<open>int\<close> addition computes it, which is the integer sum whenever \<open>nonceOffset\<close> is not
  negative and the sum is below \<open>2^63\<close>; and the public key of \<open>MyAddresses[i]\<close> is \<open>[k]G\<close> for
  its private key \<open>k\<close>. With a valid secret, a public key that is not \<open>nil\<close> and a count of 0
  the call succeeds with two empty lists.
\<close>

theorem NewStealthSession_invariant:
  "(NewStealthSession c mySecret theirPublic nonceOffset addressCount = Inr sess \<longrightarrow>
      length (TheirAddresses sess) = nat (sint addressCount) \<and>
      length (MyAddresses sess) = nat (sint addressCount) \<and>
      (\<forall>i<nat (sint addressCount).
          Nonce (TheirAddresses sess ! i) = sint (nonceOffset + of_nat i) \<and>
          Nonce (MyAddresses sess ! i) = sint (nonceOffset + of_nat i) \<and>
          (0 \<le> sint nonceOffset \<and> sint nonceOffset + int i < 2 ^ 63 \<longrightarrow>
             Nonce (TheirAddresses sess ! i) = sint nonceOffset + int i \<and>
             Nonce (MyAddresses sess ! i) = sint nonceOffset + int i) \<and>
          Public (MyAddresses sess ! i) = ScalarBaseMult c (Private (MyAddresses sess ! i)))) \<and>
   (1 \<le> mySecret \<and> mySecret < Order c \<longrightarrow>
      (\<exists>s0. NewStealthSession c mySecret (Some tp) nonceOffset 0 = Inr s0 \<and>
            TheirAddresses s0 = [] \<and> MyAddresses s0 = []))"
proof (intro conjI impI)
  assume a: "NewStealthSession c mySecret theirPublic nonceOffset addressCount = Inr sess"
  from NewStealthSession_Inr [OF a] obtain tp' where
    "session_loop c mySecret tp' (deriveSharedSecret c mySecret tp') nonceOffset
        (nat (sint addressCount)) 0 ([], []) = Inr (TheirAddresses sess, MyAddresses sess)"
    by blast
  from session_loop_invariant [OF this]
  have len: "length (TheirAddresses sess) = nat (sint addressCount)"
      "length (MyAddresses sess) = nat (sint addressCount)"
    and inv: "\<forall>i<nat (sint addressCount).
          Nonce (TheirAddresses sess ! i) = sint (nonceOffset + of_nat i) \<and>
          Nonce (MyAddresses sess ! i) = sint (nonceOffset + of_nat i) \<and>
          Public (MyAddresses sess ! i) = ScalarBaseMult c (Private (MyAddresses sess ! i))"
    by blast+
  show "length (TheirAddresses sess) = nat (sint addressCount)" by (rule len)
  show "length (MyAddresses sess) = nat (sint addressCount)" by (rule len)
  show "\<forall>i<nat (sint addressCount).
          Nonce (TheirAddresses sess ! i) = sint (nonceOffset + of_nat i) \<and>
          Nonce (MyAddresses sess ! i) = sint (nonceOffset + of_nat i) \<and>
          (0 \<le> sint nonceOffset \<and> sint nonceOffset + int i < 2 ^ 63 \<longrightarrow>
             Nonce (TheirAddresses sess ! i) = sint nonceOffset + int i \<and>
             Nonce (MyAddresses sess ! i) = sint nonceOffset + int i) \<and>
          Public (MyAddresses sess ! i) = ScalarBaseMult c (Private (MyAddresses sess ! i))"
    using inv by (auto simp: sint_add_nat)
next
  assume "1 \<le> mySecret \<and> mySecret < Order c"
  then show "\<exists>s0. NewStealthSession c mySecret (Some tp) nonceOffset 0 = Inr s0 \<and>
            TheirAddresses s0 = [] \<and> MyAddresses s0 = []"
    by (simp add: NewStealthSession_def isValidSecretKey_iff Let_def session_loop_0)
qed

lemma map_two: "length xs = 2 \<Longrightarrow> map f xs = [f (xs ! 0), f (xs ! 1)]"
  by (cases xs; cases "tl xs") auto

lemma toy_valid_3: "isValidSecretKey toy 3"
  by (simp add: isValidSecretKey_def toy_simps)

theorem NewStealthSession_invariant_witness:
  "(1::int) \<le> 3 \<and> 3 < Order toy \<and> (2::nat) < nat (sint (3::64 word)) \<and>
   0 \<le> sint (10::64 word) \<and> sint (10::64 word) + int 2 < 2 ^ 63 \<and>
   (\<exists>sess. NewStealthSession toy 3 (Some 5) 10 3 = Inr sess \<and>
      length (TheirAddresses sess) = 3 \<and> length (MyAddresses sess) = 3 \<and>
      Nonce (TheirAddresses sess ! 2) = 12 \<and> Nonce (MyAddresses sess ! 2) = 12 \<and>
      Public (MyAddresses sess ! 2) = ScalarBaseMult toy (Private (MyAddresses sess ! 2))) \<and>
   (\<exists>s0. NewStealthSession toy 3 (Some 5) 10 0 = Inr s0 \<and>
      TheirAddresses s0 = [] \<and> MyAddresses s0 = [])"
proof -
  have h: "(1::int) \<le> 3 \<and> 3 < Order toy" "(2::nat) < nat (sint (3::64 word))"
    "0 \<le> sint (10::64 word) \<and> sint (10::64 word) + int 2 < 2 ^ 63"
    by (simp_all add: toy_simps)
  from NewStealthSession_total [OF toy_valid_3, of 5 10 3] obtain sess where
    s: "NewStealthSession toy 3 (Some 5) 10 3 = Inr sess"
    by (auto simp: toy_simps)
  note inv = NewStealthSession_invariant [where c = toy and mySecret = 3 and theirPublic = "Some 5"
      and nonceOffset = 10 and addressCount = 3 and sess = sess and tp = 5]
  from inv s have len: "length (TheirAddresses sess) = 3" "length (MyAddresses sess) = 3"
    by simp_all
  from inv s h have n: "Nonce (TheirAddresses sess ! 2) = sint (10::64 word) + int 2 \<and>
      Nonce (MyAddresses sess ! 2) = sint (10::64 word) + int 2 \<and>
      Public (MyAddresses sess ! 2) = ScalarBaseMult toy (Private (MyAddresses sess ! 2))"
    by blast
  from inv h(1) have z: "\<exists>s0. NewStealthSession toy 3 (Some 5) 10 0 = Inr s0 \<and>
      TheirAddresses s0 = [] \<and> MyAddresses s0 = []"
    by blast
  from n have "Nonce (TheirAddresses sess ! 2) = 12 \<and> Nonce (MyAddresses sess ! 2) = 12 \<and>
      Public (MyAddresses sess ! 2) = ScalarBaseMult toy (Private (MyAddresses sess ! 2))"
    by simp
  with s len have "\<exists>sess. NewStealthSession toy 3 (Some 5) 10 3 = Inr sess \<and>
      length (TheirAddresses sess) = 3 \<and> length (MyAddresses sess) = 3 \<and>
      Nonce (TheirAddresses sess ! 2) = 12 \<and> Nonce (MyAddresses sess ! 2) = 12 \<and>
      Public (MyAddresses sess ! 2) = ScalarBaseMult toy (Private (MyAddresses sess ! 2))"
    by blast
  with h z show ?thesis by blast
qed

text \<open>
  With \<open>nonceOffset = 2^63 - 1\<close> and two addresses the second nonce is \<open>-2^63\<close>, not
  \<open>nonceOffset + 1\<close>.
\<close>

theorem NewStealthSession_nonce_counterexample:
  "0 \<le> sint (9223372036854775807 :: 64 word) \<and> 0 \<le> sint (2 :: 64 word) \<and>
   map_sum id (map Nonce \<circ> MyAddresses)
     (NewStealthSession toy 3 (Some 5) 9223372036854775807 2)
     = Inr [9223372036854775807, - 9223372036854775808] \<and>
   - 9223372036854775808 \<noteq> sint (9223372036854775807 :: 64 word) + 1"
proof -
  from NewStealthSession_total [OF toy_valid_3, of 5 9223372036854775807 2] obtain sess where
    s: "NewStealthSession toy 3 (Some 5) 9223372036854775807 2 = Inr sess"
    by (auto simp: toy_simps)
  from NewStealthSession_Inr [OF s] obtain tp where
    "session_loop toy 3 tp (deriveSharedSecret toy 3 tp) 9223372036854775807
        (nat (sint (2::64 word))) 0 ([], []) = Inr (TheirAddresses sess, MyAddresses sess)"
    by blast
  from session_loop_invariant [OF this]
  have len: "length (MyAddresses sess) = 2"
    and n0: "Nonce (MyAddresses sess ! 0) = sint (9223372036854775807 + of_nat 0 :: 64 word)"
    and n1: "Nonce (MyAddresses sess ! 1) = sint (9223372036854775807 + of_nat 1 :: 64 word)"
    by simp_all
  have "map Nonce (MyAddresses sess) = [9223372036854775807, - 9223372036854775808]"
    using map_two [OF len, of Nonce] n0 n1 by simp
  with s show ?thesis by simp
qed

end
